theory Spec2Isabelle
  imports Complex_Main "HOL-Library.Sublist"
begin

section \<open>Python strings\<close>

text \<open>
  A Python \<open>str\<close> is modelled as a \<open>string\<close>: every \<open>char\<close> stands for one code
  point below 256, so \<open>length\<close> is Python's \<open>len\<close>. On these code points
  \<open>str.lower\<close> changes the ASCII capitals and the Latin-1 capitals, \<open>\<bsol>d\<close> matches
  the ten ASCII digits only, \<open>\<bsol>s\<close> and \<open>str.strip\<close> use the white space set of
  \<open>str.isspace\<close>, and \<open>re.IGNORECASE\<close> on an ASCII letter of a pattern accepts exactly
  its two ASCII cases.
\<close>

definition is_digit :: "char \<Rightarrow> bool" where
  "is_digit c = (let n = (of_char c :: nat) in 48 \<le> n \<and> n \<le> 57)"

definition is_space :: "char \<Rightarrow> bool" where
  "is_space c = (let n = (of_char c :: nat) in
     (9 \<le> n \<and> n \<le> 13) \<or> (28 \<le> n \<and> n \<le> 32) \<or> n = 133 \<or> n = 160)"

definition is_alpha_az :: "char \<Rightarrow> bool" where
  \<comment> \<open>\<open>[A-Z]\<close> under \<open>re.IGNORECASE\<close>\<close>
  "is_alpha_az c = (let n = (of_char c :: nat) in
     (65 \<le> n \<and> n \<le> 90) \<or> (97 \<le> n \<and> n \<le> 122))"

definition lower_char :: "char \<Rightarrow> char" where
  "lower_char c = (let n = (of_char c :: nat) in
     if (65 \<le> n \<and> n \<le> 90) \<or> (192 \<le> n \<and> n \<le> 222 \<and> n \<noteq> 215)
     then char_of (n + 32) else c)"

definition upper_char :: "char \<Rightarrow> char" where
  \<comment> \<open>\<open>str.upper\<close>, used on regex groups only, which hold ASCII letters, digits and
      white space: there it changes \<open>a-z\<close> alone\<close>
  "upper_char c = (let n = (of_char c :: nat) in
     if 97 \<le> n \<and> n \<le> 122 then char_of (n - 32) else c)"

definition py_lower :: "string \<Rightarrow> string" where
  "py_lower s = map lower_char s"

definition py_upper :: "string \<Rightarrow> string" where
  "py_upper s = map upper_char s"

definition py_strip :: "string \<Rightarrow> string" where
  "py_strip s = rev (dropWhile is_space (rev (dropWhile is_space s)))"

definition py_startswith :: "string \<Rightarrow> string \<Rightarrow> bool" where
  \<comment> \<open>\<open>s.startswith(p)\<close>\<close>
  "py_startswith s p = (take (length p) s = p)"

fun py_in :: "string \<Rightarrow> string \<Rightarrow> bool" where
  \<comment> \<open>\<open>needle in hay\<close>\<close>
  "py_in needle [] = (needle = [])"
| "py_in needle (c # cs) = (py_startswith (c # cs) needle \<or> py_in needle cs)"

definition digit_val :: "char \<Rightarrow> int" where
  "digit_val c = int (of_char c) - 48"

definition digits_value :: "string \<Rightarrow> int" where
  \<comment> \<open>the integer that a string of ASCII digits writes in base ten\<close>
  "digits_value ds = foldl (\<lambda>a c. 10 * a + digit_val c) 0 ds"

text \<open>Errors raised by the modelled code.\<close>

datatype py_error =
    IndexError
  | AttributeError
  | ValueError
  | JSONDecodeError
  | RecursionError
  | FileNotFoundError
  | PermissionError
  | IsADirectoryError
  | UnicodeDecodeError

definition int_max_str_digits :: nat where
  \<comment> \<open>CPython's default limit on the digits of a string that \<open>int\<close> converts\<close>
  "int_max_str_digits = 4300"

definition py_int :: "string \<Rightarrow> py_error + int" where
  \<comment> \<open>\<open>int(ds)\<close> on a non-empty string of ASCII digits, as the groups \<open>(\<bsol>d+)\<close> are:
      it raises \<open>ValueError\<close> beyond the digit limit\<close>
  "py_int ds =
     (if int_max_str_digits < length ds then Inl ValueError else Inr (digits_value ds))"

definition py_getitem :: "'a list \<Rightarrow> int \<Rightarrow> py_error + 'a" where
  \<comment> \<open>\<open>xs[i]\<close>\<close>
  "py_getitem xs i =
     (if 0 \<le> i \<and> i < int (length xs) then Inr (xs ! nat i)
      else if i < 0 \<and> - int (length xs) \<le> i then Inr (xs ! nat (int (length xs) + i))
      else Inl IndexError)"

definition py_slice_to :: "'a list \<Rightarrow> int \<Rightarrow> 'a list" where
  \<comment> \<open>\<open>xs[:k]\<close>: a negative bound counts from the end\<close>
  "py_slice_to xs k =
     (if 0 \<le> k then take (nat k) xs else take (nat (int (length xs) + k)) xs)"

fun partition_at :: "string \<Rightarrow> string \<Rightarrow> (string \<times> string) option" where
  \<comment> \<open>the text before and after the first occurrence of a non-empty separator\<close>
  "partition_at sep [] = None"
| "partition_at sep (c # cs) =
     (if py_startswith (c # cs) sep then Some ([], drop (length sep) (c # cs))
      else (case partition_at sep cs of
              None \<Rightarrow> None
            | Some (before, after) \<Rightarrow> Some (c # before, after)))"

definition py_split1 :: "string \<Rightarrow> string \<Rightarrow> string list" where
  \<comment> \<open>\<open>s.split(sep, 1)\<close> for a non-empty separator\<close>
  "py_split1 s sep =
     (case partition_at sep s of None \<Rightarrow> [s] | Some (before, after) \<Rightarrow> [before, after])"

section \<open>The regular expressions of the source\<close>

text \<open>
  Each pattern of the source is a matcher at one position and a left-to-right scan.
  In every pattern a greedy \<open>\<bsol>d+\<close>, \<open>\<bsol>s*\<close> or \<open>[A-Z]*\<close> is followed by something that
  cannot start with a character of its own class (or by nothing that can fail), so a
  match takes the whole run and backtracking never finds another one.
\<close>

definition match_ci :: "string \<Rightarrow> string \<Rightarrow> string option" where
  \<comment> \<open>a lower-case literal under \<open>re.IGNORECASE\<close> at the start of \<open>s\<close>: the rest of \<open>s\<close>\<close>
  "match_ci lit s =
     (if py_lower (take (length lit) s) = lit then Some (drop (length lit) s) else None)"

definition match_year_unit :: "string \<Rightarrow> string option" where
  \<comment> \<open>\<open>(?:years|year)\<close>\<close>
  "match_year_unit s =
     (case match_ci ''years'' s of Some r \<Rightarrow> Some r | None \<Rightarrow> match_ci ''year'' s)"

definition match_to_or_dash :: "string \<Rightarrow> string option" where
  \<comment> \<open>\<open>(?:to|-)\<close>\<close>
  "match_to_or_dash s =
     (case match_ci ''to'' s of Some r \<Rightarrow> Some r | None \<Rightarrow> match_ci ''-'' s)"

definition match_year_range :: "string \<Rightarrow> ((string \<times> string) \<times> string) option" where
  \<comment> \<open>\<open>(\<bsol>d+)\<bsol>s*(?:to|-)\<bsol>s*(\<bsol>d+)\<bsol>s*(?:years|year)\<close> at the start of \<open>s\<close>:
      the two groups and the rest of \<open>s\<close>\<close>
  "match_year_range s =
     (let a = takeWhile is_digit s in
      if a = [] then None
      else case match_to_or_dash (dropWhile is_space (dropWhile is_digit s)) of
        None \<Rightarrow> None
      | Some r1 \<Rightarrow>
         (let s2 = dropWhile is_space r1; b = takeWhile is_digit s2 in
          if b = [] then None
          else case match_year_unit (dropWhile is_space (dropWhile is_digit s2)) of
            None \<Rightarrow> None
          | Some r2 \<Rightarrow> Some ((a, b), r2)))"

definition match_years :: "string \<Rightarrow> (string \<times> string) option" where
  \<comment> \<open>\<open>(\<bsol>d+)\<bsol>s*(?:years|year)\<close> at the start of \<open>s\<close>: the group and the rest\<close>
  "match_years s =
     (let a = takeWhile is_digit s in
      if a = [] then None
      else case match_year_unit (dropWhile is_space (dropWhile is_digit s)) of
        None \<Rightarrow> None
      | Some r \<Rightarrow> Some (a, r))"

lemma match_ci_length: "match_ci lit s = Some r \<Longrightarrow> length r \<le> length s"
  by (auto simp: match_ci_def split: if_splits)

lemma match_year_unit_length: "match_year_unit s = Some r \<Longrightarrow> length r \<le> length s"
  by (auto simp: match_year_unit_def split: option.splits dest: match_ci_length)

lemma match_to_or_dash_length: "match_to_or_dash s = Some r \<Longrightarrow> length r \<le> length s"
  by (auto simp: match_to_or_dash_def split: option.splits dest: match_ci_length)

lemma dropWhile_shorter: "takeWhile P s \<noteq> [] \<Longrightarrow> length (dropWhile P s) < length s"
  by (cases s) (auto simp: le_imp_less_Suc length_dropWhile_le split: if_splits)

lemma match_years_length:
  assumes "match_years s = Some (a, r)"
  shows "length r < length s"
proof -
  from assms have ne: "takeWhile is_digit s \<noteq> []"
    and u: "match_year_unit (dropWhile is_space (dropWhile is_digit s)) = Some r"
    by (auto simp: match_years_def Let_def split: if_splits option.splits)
  have "length r \<le> length (dropWhile is_space (dropWhile is_digit s))"
    using u by (rule match_year_unit_length)
  also have "\<dots> \<le> length (dropWhile is_digit s)"
    by (rule length_dropWhile_le)
  also have "\<dots> < length s"
    using ne by (rule dropWhile_shorter)
  finally show ?thesis .
qed

lemma match_year_range_length:
  assumes "match_year_range s = Some (g, r)"
  shows "length r < length s"
proof -
  from assms obtain r1 where ne: "takeWhile is_digit s \<noteq> []"
    and t: "match_to_or_dash (dropWhile is_space (dropWhile is_digit s)) = Some r1"
    and u: "match_year_unit
              (dropWhile is_space (dropWhile is_digit (dropWhile is_space r1))) = Some r"
    by (auto simp: match_year_range_def Let_def split: if_splits option.splits)
  have "length r \<le> length (dropWhile is_space (dropWhile is_digit (dropWhile is_space r1)))"
    using u by (rule match_year_unit_length)
  also have "\<dots> \<le> length (dropWhile is_digit (dropWhile is_space r1))"
    by (rule length_dropWhile_le)
  also have "\<dots> \<le> length (dropWhile is_space r1)"
    by (rule length_dropWhile_le)
  also have "\<dots> \<le> length r1"
    by (rule length_dropWhile_le)
  also have "\<dots> \<le> length (dropWhile is_space (dropWhile is_digit s))"
    using t by (rule match_to_or_dash_length)
  also have "\<dots> \<le> length (dropWhile is_digit s)"
    by (rule length_dropWhile_le)
  also have "\<dots> < length s"
    using ne by (rule dropWhile_shorter)
  finally show ?thesis .
qed

function findall_year_ranges :: "string \<Rightarrow> (string \<times> string) list" where
  \<comment> \<open>\<open>re.findall\<close> of the range pattern: the matches that do not overlap, left to right\<close>
  "findall_year_ranges [] = []"
| "findall_year_ranges (c # cs) =
     (case match_year_range (c # cs) of
        Some (g, r) \<Rightarrow> g # findall_year_ranges r
      | None \<Rightarrow> findall_year_ranges cs)"
  by pat_completeness auto
termination
  by (relation "measure length") (auto dest: match_year_range_length)

function findall_years :: "string \<Rightarrow> string list" where
  \<comment> \<open>\<open>re.findall\<close> of the single-number pattern\<close>
  "findall_years [] = []"
| "findall_years (c # cs) =
     (case match_years (c # cs) of
        Some (a, r) \<Rightarrow> a # findall_years r
      | None \<Rightarrow> findall_years cs)"
  by pat_completeness auto
termination
  by (relation "measure length") (auto dest: match_years_length)

fun search_punishment :: "string \<Rightarrow> string option" where
  \<comment> \<open>\<open>re.search(r'Punishment:\<bsol>s*(.*)', s, re.IGNORECASE)\<close>: group 1 of the leftmost
      match; the dot stops at a line feed\<close>
  "search_punishment [] = None"
| "search_punishment (c # cs) =
     (case match_ci ''punishment:'' (c # cs) of
        Some r \<Rightarrow> Some (takeWhile (\<lambda>x. x \<noteq> CHR 0x0A) (dropWhile is_space r))
      | None \<Rightarrow> search_punishment cs)"

section \<open>Severity extraction (\<open>parse_punishment_years\<close>)\<close>

definition range_strings :: "(string \<times> string) list \<Rightarrow> string list" where
  \<comment> \<open>\<open>yr for r in year_ranges for yr in r\<close>\<close>
  "range_strings year_ranges = concat (map (\<lambda>(a, b). [a, b]) year_ranges)"

fun int_all :: "string list \<Rightarrow> py_error + int list" where
  \<comment> \<open>\<open>int(yr)\<close> for each string in turn; the first failure ends the generator\<close>
  "int_all [] = Inr []"
| "int_all (yr # yrs) =
     (case py_int yr of
        Inl e \<Rightarrow> Inl e
      | Inr n \<Rightarrow> (case int_all yrs of Inl e \<Rightarrow> Inl e | Inr ns \<Rightarrow> Inr (n # ns)))"

definition py_max :: "int list \<Rightarrow> py_error + int" where
  \<comment> \<open>\<open>max\<close> of a sequence, which raises on the empty one\<close>
  "py_max ns = (case ns of [] \<Rightarrow> Inl ValueError | n # ms \<Rightarrow> Inr (fold max ms n))"

definition parse_punishment_years :: "string \<Rightarrow> py_error + (int option \<times> string)" where
  "parse_punishment_years text_description =
     (let punishment_text =
            (case search_punishment text_description of
               None \<Rightarrow> []
             | Some g \<Rightarrow> py_strip g);
          year_ranges = findall_year_ranges punishment_text;
          years =
            (if year_ranges \<noteq> [] then
               (case int_all (range_strings year_ranges) of
                  Inl e \<Rightarrow> Inl e
                | Inr bounds \<Rightarrow> map_sum id Some (py_max bounds))
             else
               (case findall_years punishment_text of
                  [] \<Rightarrow> Inr None
                | m # ms \<Rightarrow> map_sum id Some (py_int m)))
      in case years of
           Inl e \<Rightarrow> Inl e
         | Inr (Some y) \<Rightarrow> Inr (Some y, punishment_text)
         | Inr None \<Rightarrow>
             Inr (if py_in ''life'' (py_lower punishment_text) then Some 999
                  else if py_in ''death'' (py_lower punishment_text) then Some 1000
                  else None,
                  punishment_text))"

section \<open>Corpus records and the loader (\<open>load_data_structured\<close>)\<close>

record ipc_record =
  ipc_section_id :: string
  description_summary :: string
  punishment_years :: "int option"
  original_text :: string

text \<open>
  What \<open>json.loads\<close> returns. The loader only asks whether the value is a \<open>dict\<close> and
  whether its \<open>'text'\<close> is a \<open>str\<close>, so numbers are kept as integers. A \<open>dict\<close> is an
  association list whose keys are distinct, read with \<open>map_of\<close>.
\<close>

datatype json =
    JNull
  | JBool bool
  | JNumber int
  | JString string
  | JArray "json list"
  | JObject "(string \<times> json) list"

definition match_ipc_section :: "string \<Rightarrow> (string \<times> string) option" where
  \<comment> \<open>\<open>IPC\<bsol>s*(\<bsol>d+[A-Z]*)\<close> under \<open>re.IGNORECASE\<close> at the start of \<open>s\<close>:
      group 0 and group 1\<close>
  "match_ipc_section s =
     (case match_ci ''ipc'' s of
        None \<Rightarrow> None
      | Some r \<Rightarrow>
         (let r' = dropWhile is_space r in
          if takeWhile is_digit r' = [] then None
          else
            (let letters = dropWhile is_digit r';
                 rest = dropWhile is_alpha_az letters
             in Some (take (length s - length rest) s,
                      takeWhile is_digit r' @ takeWhile is_alpha_az letters))))"

fun search_ipc_section :: "string \<Rightarrow> (string \<times> string) option" where
  \<comment> \<open>\<open>re.search\<close>: the leftmost match\<close>
  "search_ipc_section [] = None"
| "search_ipc_section (c # cs) =
     (case match_ipc_section (c # cs) of
        Some m \<Rightarrow> Some m
      | None \<Rightarrow> search_ipc_section cs)"

definition summary_text :: "string \<Rightarrow> py_error + string" where
  \<comment> \<open>\<open>text_content.split(':', 1)[1].split('Punishment:', 1)[0].strip()
      if 'Punishment:' in text_content else text_content\<close>\<close>
  "summary_text text_content =
     (if py_in ''Punishment:'' text_content then
        (case py_getitem (py_split1 text_content '':'') 1 of
           Inl e \<Rightarrow> Inl e
         | Inr after_label \<Rightarrow>
            (case py_getitem (py_split1 after_label ''Punishment:'') 0 of
               Inl e \<Rightarrow> Inl e
             | Inr body \<Rightarrow> Inr (py_strip body)))
      else Inr text_content)"

definition entry_get_text :: "json \<Rightarrow> py_error + json" where
  \<comment> \<open>\<open>entry.get('text', '')\<close>: only a \<open>dict\<close> has \<open>get\<close>\<close>
  "entry_get_text entry =
     (case entry of
        JObject kv \<Rightarrow> Inr (case map_of kv ''text'' of None \<Rightarrow> JString [] | Some v \<Rightarrow> v)
      | _ \<Rightarrow> Inl AttributeError)"

definition structure_text :: "string \<Rightarrow> py_error + ipc_record option" where
  \<comment> \<open>the body of the \<open>try\<close> once \<open>text_content\<close> is a \<open>str\<close>; \<open>None\<close> is the
      \<open>continue\<close> of a skipped entry\<close>
  "structure_text text_content =
     (if py_in ''nan'' (py_lower text_content) \<or> length text_content < 20 then Inr None
      else
        (let ipc_section_id =
               (case search_ipc_section text_content of
                  Some (g0, g1) \<Rightarrow> py_upper g0
                | None \<Rightarrow> ''UNKNOWN'')
         in case parse_punishment_years text_content of
              Inl e \<Rightarrow> Inl e
            | Inr (years, punishment_description_text) \<Rightarrow>
               (case summary_text text_content of
                  Inl e \<Rightarrow> Inl e
                | Inr summary \<Rightarrow>
                    Inr (Some \<lparr>ipc_section_id = ipc_section_id,
                               description_summary = summary,
                               punishment_years = years,
                               original_text = text_content\<rparr>))))"

definition structure_entry :: "json \<Rightarrow> py_error + ipc_record option" where
  \<comment> \<open>the body of the \<open>try\<close> after \<open>json.loads\<close>: \<open>text_content.lower()\<close> raises
      unless the value is a \<open>str\<close>\<close>
  "structure_entry entry =
     (case entry_get_text entry of
        Inl e \<Rightarrow> Inl e
      | Inr (JString text_content) \<Rightarrow> structure_text text_content
      | Inr _ \<Rightarrow> Inl AttributeError)"

datatype log_entry =
    Warning_invalid_json string
  | Warning_error_parsing py_error
  | Info_loaded nat nat
  | Error_not_found string

record loader =
  structured_data :: "ipc_record list"
  skipped_count :: nat
  logged :: "log_entry list"

text \<open>
  \<open>json.loads\<close> is a parameter of the model: it gives the value that a line writes or
  raises. It raises \<open>JSONDecodeError\<close> on a line that is not JSON, and on a line that is
  JSON it can still raise, \<open>ValueError\<close> on an integer of more than 4300 digits and
  \<open>RecursionError\<close> on arrays nested too deep.
\<close>

definition handler :: "string \<Rightarrow> py_error \<Rightarrow> log_entry" where
  \<comment> \<open>the two \<open>except\<close> clauses of the inner \<open>try\<close>: \<open>json.JSONDecodeError\<close> first, then
      \<open>Exception\<close>\<close>
  "handler line e =
     (if e = JSONDecodeError then Warning_invalid_json (py_strip line)
      else Warning_error_parsing e)"

definition load_line :: "(string \<Rightarrow> py_error + json) \<Rightarrow> loader \<Rightarrow> string \<Rightarrow> loader" where
  \<comment> \<open>one turn of \<open>for line in f\<close>\<close>
  "load_line json_loads st line =
     (case json_loads line of
        Inl e \<Rightarrow> st\<lparr>logged := logged st @ [handler line e]\<rparr>
      | Inr entry \<Rightarrow>
         (case structure_entry entry of
            Inl e \<Rightarrow> st\<lparr>logged := logged st @ [handler line e]\<rparr>
          | Inr None \<Rightarrow> st\<lparr>skipped_count := skipped_count st + 1\<rparr>
          | Inr (Some r) \<Rightarrow> st\<lparr>structured_data := structured_data st @ [r]\<rparr>))"

text \<open>
  What \<open>open\<close> and the reading of the file give: \<open>open\<close> raises, or the file is read
  line by line, and the reading comes to the end of the file or raises after some lines
  (\<open>UnicodeDecodeError\<close> on bytes that are not UTF-8).
\<close>

datatype corpus_file = File "string list" "py_error option"

definition load_data_structured ::
  "(string \<Rightarrow> py_error + json) \<Rightarrow> (string \<Rightarrow> py_error + corpus_file) \<Rightarrow> string
     \<Rightarrow> log_entry list \<times> (py_error + ipc_record list)" where
  \<comment> \<open>\<open>files\<close> is the file system as \<open>open\<close> sees it; the result is what was logged and
      what is returned or raised. The loop stands outside the inner \<open>try\<close>, and the outer
      handler catches \<open>FileNotFoundError\<close> alone, logs it and raises it again.\<close>
  "load_data_structured json_loads files file_path =
     (let not_found = (\<lambda>e. if e = FileNotFoundError then [Error_not_found file_path] else [])
      in case files file_path of
           Inl e \<Rightarrow> (not_found e, Inl e)
         | Inr (File lines reading) \<Rightarrow>
            (let st = foldl (load_line json_loads)
                        \<lparr>structured_data = [], skipped_count = 0, logged = []\<rparr> lines
             in case reading of
                  Some e \<Rightarrow> (logged st @ not_found e, Inl e)
                | None \<Rightarrow>
                   (logged st
                      @ [Info_loaded (length (structured_data st)) (skipped_count st)],
                    Inr (structured_data st))))"

section \<open>Hybrid retrieval (\<open>retrieve_relevant_ipc_hybrid\<close>)\<close>

text \<open>
  The models are parameters. \<open>re_ranker_model\<close> gives the score of one (query, document)
  pair, and \<open>predict\<close> scores a list of pairs one by one, in order. \<open>embedding_model\<close>
  maps the query to its vector and \<open>faiss_index\<close> maps a vector and \<open>k_initial\<close> to the
  row \<open>indices[0]\<close> of the search result. \<open>st.info\<close> and \<open>st.warning\<close> are the notices
  of the result.
\<close>

datatype notice = Info_numerical_filter int | Warning_no_matching_sections

definition match_greater_than :: "string \<Rightarrow> string option" where
  \<comment> \<open>\<open>greater than (\<bsol>d+)\<bsol>s*(?:years|year)?\<close> under \<open>re.IGNORECASE\<close> at the start
      of \<open>s\<close>: group 1. After the digits \<open>\<bsol>s*\<close> and the optional unit match whatever
      follows, so they decide nothing.\<close>
  "match_greater_than s =
     (case match_ci ''greater than '' s of
        None \<Rightarrow> None
      | Some r \<Rightarrow> if takeWhile is_digit r = [] then None else Some (takeWhile is_digit r))"

fun search_greater_than :: "string \<Rightarrow> string option" where
  \<comment> \<open>\<open>re.search\<close>: the leftmost match\<close>
  "search_greater_than [] = None"
| "search_greater_than (c # cs) =
     (case match_greater_than (c # cs) of
        Some g \<Rightarrow> Some g
      | None \<Rightarrow> search_greater_than cs)"

definition numeric_filter :: "string \<Rightarrow> py_error + int option" where
  \<comment> \<open>\<open>min_years_threshold\<close>, \<open>None\<close> when the pattern does not match\<close>
  "numeric_filter query =
     (case search_greater_than query of
        None \<Rightarrow> Inr None
      | Some g \<Rightarrow> map_sum id Some (py_int g))"

definition predict :: "(string \<Rightarrow> string \<Rightarrow> real) \<Rightarrow> (string \<times> string) list \<Rightarrow> real list" where
  "predict re_ranker_model sentence_pairs = map (\<lambda>(q, doc). re_ranker_model q doc) sentence_pairs"

definition rerank :: "(string \<Rightarrow> string \<Rightarrow> real) \<Rightarrow> string \<Rightarrow> string list \<Rightarrow> int \<Rightarrow> string list" where
  \<comment> \<open>the three lines both paths end with; \<open>sorted(..., key=lambda x: x[1], reverse=True)\<close>
      is stable and descending\<close>
  "rerank re_ranker_model query docs k =
     (let sentence_pairs = map (\<lambda>doc. (query, doc)) docs;
          rerank_scores = predict re_ranker_model sentence_pairs;
          scored_documents = sort_key (\<lambda>x. - snd x) (zip docs rerank_scores)
      in map fst (py_slice_to scored_documents k))"

definition mentions_child :: "string \<Rightarrow> bool" where
  \<comment> \<open>\<open>'child' in s or 'minor' in s\<close>\<close>
  "mentions_child s = (py_in ''child'' s \<or> py_in ''minor'' s)"

definition keyword_matches :: "string \<Rightarrow> ipc_record list \<Rightarrow> string list" where
  "keyword_matches query_lower structured_ipc_data =
     (if mentions_child query_lower then
        map original_text
          (filter (\<lambda>item. mentions_child (py_lower (original_text item))) structured_ipc_data)
      else [])"

definition retrieved_sections :: "string \<Rightarrow> string list \<Rightarrow> string list" where
  \<comment> \<open>the exact section match: the first text of the metadata that starts with the
      identifier of the query\<close>
  "retrieved_sections query metadata =
     (case search_ipc_section query of
        None \<Rightarrow> []
      | Some (g0, g1) \<Rightarrow>
         (let section_id_query = ''IPC '' @ py_upper g1 in
          case find (\<lambda>section_text.
                 py_startswith (py_lower section_text) (py_lower section_id_query)) metadata of
            None \<Rightarrow> []
          | Some section_text \<Rightarrow> [section_text]))"

fun semantic_matches :: "string list \<Rightarrow> int list \<Rightarrow> string list \<Rightarrow> py_error + string list" where
  \<comment> \<open>\<open>for i, idx in enumerate(indices[0])\<close>, the list built so far as third argument\<close>
  "semantic_matches metadata [] acc = Inr acc"
| "semantic_matches metadata (idx # indices) acc =
     (if 0 \<le> idx \<and> idx < int (length metadata) then
        (case py_getitem metadata idx of
           Inl e \<Rightarrow> Inl e
         | Inr section_text \<Rightarrow> semantic_matches metadata indices (acc @ [section_text]))
      else semantic_matches metadata indices acc)"

fun combine_results :: "string list \<Rightarrow> string list \<Rightarrow> string set \<Rightarrow> string list" where
  \<comment> \<open>\<open>for item in keyword_matches + retrieved_sections + semantic_matches\<close>, with
      \<open>combined_results_for_reranking\<close> and \<open>seen\<close> as they stand\<close>
  "combine_results [] combined seen = combined"
| "combine_results (item # items) combined seen =
     (if item \<notin> seen then combine_results items (combined @ [item]) (insert item seen)
      else combine_results items combined seen)"

definition hybrid_path ::
  "string \<Rightarrow> ipc_record list \<Rightarrow> ('v \<Rightarrow> int \<Rightarrow> int list) \<Rightarrow> string list \<Rightarrow> (string \<Rightarrow> 'v)
     \<Rightarrow> (string \<Rightarrow> string \<Rightarrow> real) \<Rightarrow> int \<Rightarrow> int \<Rightarrow> py_error + string list" where
  \<comment> \<open>the source from \<open>retrieved_sections = []\<close> to its last line\<close>
  "hybrid_path query structured_ipc_data faiss_index metadata embedding_model
       re_ranker_model k_initial k_final =
     (let query_lower = py_lower query;
          keyword = keyword_matches query_lower structured_ipc_data;
          exact = retrieved_sections query metadata;
          query_embedding = embedding_model query;
          indices = faiss_index query_embedding k_initial
      in case semantic_matches metadata indices [] of
           Inl e \<Rightarrow> Inl e
         | Inr semantic \<Rightarrow>
            (let combined_results_for_reranking =
                   combine_results (keyword @ exact @ semantic) [] {}
             in if combined_results_for_reranking = [] then Inr []
                else Inr (rerank re_ranker_model query combined_results_for_reranking k_final)))"

definition filtered_by_condition :: "int \<Rightarrow> ipc_record list \<Rightarrow> string list" where
  "filtered_by_condition min_years_threshold structured_ipc_data =
     map original_text
       (filter (\<lambda>item. case punishment_years item of
                          None \<Rightarrow> False
                        | Some y \<Rightarrow> y > min_years_threshold) structured_ipc_data)"

definition retrieve_relevant_ipc_hybrid ::
  "string \<Rightarrow> ipc_record list \<Rightarrow> ('v \<Rightarrow> int \<Rightarrow> int list) \<Rightarrow> string list \<Rightarrow> (string \<Rightarrow> 'v)
     \<Rightarrow> (string \<Rightarrow> string \<Rightarrow> real) \<Rightarrow> int \<Rightarrow> int \<Rightarrow> notice list \<times> (py_error + string list)" where
  "retrieve_relevant_ipc_hybrid query structured_ipc_data faiss_index metadata embedding_model
       re_ranker_model k_initial k_final =
     (case numeric_filter query of
        Inl e \<Rightarrow> ([], Inl e)
      | Inr None \<Rightarrow>
          ([], hybrid_path query structured_ipc_data faiss_index metadata embedding_model
                 re_ranker_model k_initial k_final)
      | Inr (Some min_years_threshold) \<Rightarrow>
          (let filtered = filtered_by_condition min_years_threshold structured_ipc_data in
           if filtered \<noteq> [] then
             (let sentence_pairs = map (\<lambda>doc. (query, doc)) filtered in
              if sentence_pairs \<noteq> [] then
                ([Info_numerical_filter min_years_threshold],
                 Inr (rerank re_ranker_model query filtered 20))
              else ([Info_numerical_filter min_years_threshold], Inr []))
           else
             ([Info_numerical_filter min_years_threshold, Warning_no_matching_sections],
              hybrid_path query structured_ipc_data faiss_index metadata embedding_model
                re_ranker_model k_initial k_final)))"

section \<open>Notions of the specification\<close>

definition first_index :: "'a list \<Rightarrow> 'a \<Rightarrow> nat" where
  \<comment> \<open>the position of the first occurrence of \<open>x\<close> in \<open>xs\<close>\<close>
  "first_index xs x = length (takeWhile (\<lambda>y. y \<noteq> x) xs)"

definition year_unit :: "string \<Rightarrow> string \<Rightarrow> bool" where
  \<comment> \<open>\<open>u\<close> is the unit "years" or "year" in any letter case, "year" only where the text
      \<open>r\<close> after it does not go on with an "s"\<close>
  "year_unit u r \<longleftrightarrow>
     py_lower u = ''years''
     \<or> (py_lower u = ''year'' \<and> (r = [] \<or> lower_char (hd r) \<noteq> CHR ''s''))"

definition years_phrase :: "string \<Rightarrow> string \<Rightarrow> string \<Rightarrow> bool" where
  \<comment> \<open>\<open>s\<close> starts with the number \<open>a\<close>, white space and a year unit, and \<open>r\<close> follows\<close>
  "years_phrase s a r \<longleftrightarrow>
     (\<exists>ws u. s = a @ ws @ u @ r \<and> a \<noteq> [] \<and> list_all is_digit a \<and> list_all is_space ws
        \<and> year_unit u r)"

definition separator :: "string \<Rightarrow> bool" where
  \<comment> \<open>"to" in any letter case, or a dash\<close>
  "separator sep \<longleftrightarrow> py_lower sep = ''to'' \<or> sep = ''-''"

definition range_phrase :: "string \<Rightarrow> string \<Rightarrow> string \<Rightarrow> string \<Rightarrow> bool" where
  \<comment> \<open>\<open>s\<close> starts with the range from \<open>a\<close> to \<open>b\<close>: the two numbers, a separator
      between them and a year unit after them, with any white space between the parts;
      \<open>r\<close> follows\<close>
  "range_phrase s a b r \<longleftrightarrow>
     (\<exists>ws1 sep ws2 ws3 u.
        s = a @ ws1 @ sep @ ws2 @ b @ ws3 @ u @ r
        \<and> a \<noteq> [] \<and> list_all is_digit a \<and> b \<noteq> [] \<and> list_all is_digit b
        \<and> list_all is_space ws1 \<and> list_all is_space ws2 \<and> list_all is_space ws3
        \<and> separator sep \<and> year_unit u r)"

definition leftmost :: "string \<Rightarrow> string \<Rightarrow> (string \<Rightarrow> bool) \<Rightarrow> bool" where
  \<comment> \<open>the text is \<open>pre\<close> and then \<open>s\<close>, \<open>s\<close> has the property and no text that starts
      earlier has it\<close>
  "leftmost pre s P \<longleftrightarrow> P s \<and> (\<forall>i < length pre. \<not> P (drop i (pre @ s)))"

definition filter_start :: "string \<Rightarrow> bool" where
  \<comment> \<open>\<open>s\<close> starts with "greater than " in any letter case and a digit\<close>
  "filter_start s \<longleftrightarrow>
     (\<exists>d post. py_lower s = ''greater than '' @ d # post \<and> is_digit d)"

definition filter_phrase :: "string \<Rightarrow> string \<Rightarrow> bool" where
  \<comment> \<open>\<open>digits\<close> is the whole run of digits after the leftmost "greater than " of the
      query that a digit follows\<close>
  "filter_phrase query digits \<longleftrightarrow>
     (\<exists>pre phrase post.
        query = pre @ phrase @ digits @ post
        \<and> py_lower phrase = ''greater than ''
        \<and> digits \<noteq> [] \<and> list_all is_digit digits \<and> (post = [] \<or> \<not> is_digit (hd post))
        \<and> (\<forall>i < length pre. \<not> filter_start (drop i query)))"

definition punishment_start :: "string \<Rightarrow> bool" where
  \<comment> \<open>\<open>s\<close> starts with "punishment:" in any letter case\<close>
  "punishment_start s \<longleftrightarrow> (\<exists>post. py_lower s = ''punishment:'' @ post)"

definition punishment_clause :: "string \<Rightarrow> string \<Rightarrow> bool" where
  \<comment> \<open>\<open>line\<close> is what follows the leftmost "Punishment:" of the text and the white
      space after it, up to the end of the line\<close>
  "punishment_clause text line \<longleftrightarrow>
     (\<exists>pre kw ws rest.
        text = pre @ kw @ ws @ line @ rest
        \<and> py_lower kw = ''punishment:''
        \<and> list_all is_space ws \<and> (line @ rest = [] \<or> \<not> is_space (hd (line @ rest)))
        \<and> CHR 0x0A \<notin> set line \<and> (rest = [] \<or> hd rest = CHR 0x0A)
        \<and> (\<forall>i < length pre. \<not> punishment_start (drop i text)))"

definition has_years :: "string \<Rightarrow> bool" where
  "has_years s \<longleftrightarrow> (\<exists>a r. years_phrase s a r)"

definition has_range :: "string \<Rightarrow> bool" where
  "has_range s \<longleftrightarrow> (\<exists>a b r. range_phrase s a b r)"

inductive ranges_of :: "string \<Rightarrow> (string \<times> string) list \<Rightarrow> bool" where
  \<comment> \<open>the ranges of a text from left to right: the leftmost one, then those of the text
      after it\<close>
  no_range: "(\<forall>i < length s. \<not> has_range (drop i s)) \<Longrightarrow> ranges_of s []"
| next_range:
    "leftmost pre t has_range \<Longrightarrow> range_phrase t a b r \<Longrightarrow> ranges_of r rs
       \<Longrightarrow> ranges_of (pre @ t) ((a, b) # rs)"


definition skipped_text :: "string \<Rightarrow> bool" where
  \<comment> \<open>the texts that the loader skips and counts\<close>
  "skipped_text t = (py_in ''nan'' (py_lower t) \<or> length t < 20)"

definition long_number :: "string \<Rightarrow> bool" where
  \<comment> \<open>the text holds a run of more than 4300 digits\<close>
  "long_number t \<longleftrightarrow> (\<exists>ds. sublist ds t \<and> list_all is_digit ds \<and> 4300 < length ds)"

definition failing_text :: "string \<Rightarrow> bool" where
  \<comment> \<open>the texts that are not skipped and whose severity extraction raises\<close>
  "failing_text t = (\<not> skipped_text t \<and> isl (parse_punishment_years t))"

definition loaded_text :: "string \<Rightarrow> bool" where
  \<comment> \<open>the texts that are not skipped and whose severity extraction returns\<close>
  "loaded_text t = (\<not> skipped_text t \<and> \<not> isl (parse_punishment_years t))"

definition line_text :: "(string \<Rightarrow> py_error + json) \<Rightarrow> string \<Rightarrow> string option" where
  \<comment> \<open>the text of a line that is JSON for an object whose \<open>'text'\<close> is a string, the
      empty string when the object has no \<open>'text'\<close>\<close>
  "line_text json_loads line =
     (case json_loads line of
        Inr (JObject kv) \<Rightarrow>
          (case map_of kv ''text'' of
             None \<Rightarrow> Some []
           | Some (JString t) \<Rightarrow> Some t
           | Some _ \<Rightarrow> None)
      | _ \<Rightarrow> None)"

definition line_warning ::
  "(string \<Rightarrow> py_error + json) \<Rightarrow> string \<Rightarrow> log_entry option" where
  \<comment> \<open>the warning of a line: of one that is not JSON, of one on which \<open>json.loads\<close>
      raises something else, of one that has no text, and of one whose text fails\<close>
  "line_warning json_loads line =
     (case json_loads line of
        Inl e \<Rightarrow>
          Some (if e = JSONDecodeError then Warning_invalid_json (py_strip line)
                else Warning_error_parsing e)
      | Inr entry \<Rightarrow>
          (case line_text json_loads line of
             None \<Rightarrow> Some (Warning_error_parsing AttributeError)
           | Some t \<Rightarrow>
               if failing_text t then Some (Warning_error_parsing ValueError) else None))"

definition entry_texts ::
  "(string \<Rightarrow> py_error + json) \<Rightarrow> string list \<Rightarrow> string list" where
  \<comment> \<open>the texts of the lines of a file, in file order\<close>
  "entry_texts json_loads lines = List.map_filter (line_text json_loads) lines"

section \<open>What the matchers accept\<close>

lemma is_digit_lower_char [simp]: "is_digit (lower_char c) \<longleftrightarrow> is_digit c"
proof -
  have "of_char c < (256::nat)"
    by (rule nat_of_char_less_256)
  then show ?thesis
    by (auto simp: is_digit_def lower_char_def Let_def)
qed

lemma is_space_lower_char [simp]: "is_space (lower_char c) \<longleftrightarrow> is_space c"
proof -
  have "of_char c < (256::nat)"
    by (rule nat_of_char_less_256)
  then show ?thesis
    by (auto simp: is_space_def lower_char_def Let_def)
qed

lemma is_space_not_digit: "is_space c \<Longrightarrow> \<not> is_digit c"
  by (auto simp: is_space_def is_digit_def Let_def)

lemma span_takeWhile:
  "list_all P a \<Longrightarrow> t = [] \<or> \<not> P (hd t) \<Longrightarrow> takeWhile P (a @ t) = a"
  by (cases t) (auto simp: list_all_iff takeWhile_append2)

lemma span_dropWhile:
  "list_all P a \<Longrightarrow> t = [] \<or> \<not> P (hd t) \<Longrightarrow> dropWhile P (a @ t) = t"
  by (cases t) (auto simp: list_all_iff dropWhile_append2)

lemma list_all_takeWhile: "list_all P (takeWhile P xs)"
  by (induction xs) auto

lemma dropWhile_head: "dropWhile P xs = [] \<or> \<not> P (hd (dropWhile P xs))"
  by (metis hd_dropWhile)

lemma match_ci_Some:
  "match_ci lit s = Some r \<longleftrightarrow> (\<exists>p. s = p @ r \<and> py_lower p = lit)"
proof
  assume "match_ci lit s = Some r"
  then have l: "py_lower (take (length lit) s) = lit" and r: "r = drop (length lit) s"
    by (auto simp: match_ci_def split: if_splits)
  then have "s = take (length lit) s @ r \<and> py_lower (take (length lit) s) = lit"
    by simp
  then show "\<exists>p. s = p @ r \<and> py_lower p = lit"
    by blast
next
  assume "\<exists>p. s = p @ r \<and> py_lower p = lit"
  then obtain p where "s = p @ r" and "py_lower p = lit"
    by blast
  moreover from this have "length p = length lit"
    by (auto simp: py_lower_def)
  ultimately show "match_ci lit s = Some r"
    by (simp add: match_ci_def)
qed

lemma match_ci_None:
  "match_ci lit s = None \<longleftrightarrow> \<not> (\<exists>p r. s = p @ r \<and> py_lower p = lit)"
  by (metis match_ci_Some not_Some_eq)

lemma match_ci_lower: "match_ci lit s \<noteq> None \<longleftrightarrow> (\<exists>post. py_lower s = lit @ post)"
proof
  assume "match_ci lit s \<noteq> None"
  then obtain p r where "s = p @ r" and "py_lower p = lit"
    by (auto simp: match_ci_Some)
  then have "py_lower s = lit @ py_lower r"
    by (auto simp: py_lower_def)
  then show "\<exists>post. py_lower s = lit @ post"
    by blast
next
  assume "\<exists>post. py_lower s = lit @ post"
  then obtain post where p: "py_lower s = lit @ post"
    by blast
  have "py_lower (take (length lit) s) = take (length lit) (py_lower s)"
    by (simp add: py_lower_def take_map)
  with p show "match_ci lit s \<noteq> None"
    by (simp add: match_ci_def)
qed

lemma match_year_unit_Some: "match_year_unit s = Some r \<longleftrightarrow> (\<exists>u. s = u @ r \<and> year_unit u r)"
proof
  assume m: "match_year_unit s = Some r"
  show "\<exists>u. s = u @ r \<and> year_unit u r"
  proof (cases "match_ci ''years'' s")
    case (Some r')
    with m show ?thesis
      by (auto simp: match_year_unit_def match_ci_Some year_unit_def)
  next
    case None
    with m obtain u where u: "s = u @ r" "py_lower u = ''year''"
      by (auto simp: match_year_unit_def match_ci_Some)
    have "r = [] \<or> lower_char (hd r) \<noteq> CHR ''s''"
    proof (rule ccontr)
      assume "\<not> (r = [] \<or> lower_char (hd r) \<noteq> CHR ''s'')"
      then obtain c r' where "r = c # r'" and "lower_char c = CHR ''s''"
        by (cases r) auto
      with u have "s = (u @ [c]) @ r' \<and> py_lower (u @ [c]) = ''years''"
        by (simp add: py_lower_def)
      with None show False
        unfolding match_ci_None by blast
    qed
    with u show ?thesis
      by (auto simp: year_unit_def)
  qed
next
  assume "\<exists>u. s = u @ r \<and> year_unit u r"
  then obtain u where s: "s = u @ r" and y: "year_unit u r"
    by blast
  show "match_year_unit s = Some r"
  proof (cases "py_lower u = ''years''")
    case True
    with s have "match_ci ''years'' s = Some r"
      by (auto simp: match_ci_Some)
    then show ?thesis
      by (simp add: match_year_unit_def)
  next
    case False
    with y have u: "py_lower u = ''year''" and r: "r = [] \<or> lower_char (hd r) \<noteq> CHR ''s''"
      by (auto simp: year_unit_def)
    have "match_ci ''years'' s = None"
    proof (rule ccontr)
      assume "match_ci ''years'' s \<noteq> None"
      then obtain post where "py_lower s = ''years'' @ post"
        using match_ci_lower [of "''years''" s] by blast
      with s u have "py_lower r = CHR ''s'' # post"
        by (simp add: py_lower_def)
      with r show False
        by (cases r) (auto simp: py_lower_def)
    qed
    moreover from s u have "match_ci ''year'' s = Some r"
      by (auto simp: match_ci_Some)
    ultimately show ?thesis
      by (simp add: match_year_unit_def)
  qed
qed

lemma py_lower_head:
  "py_lower u = l # lit \<Longrightarrow> u \<noteq> [] \<and> lower_char (hd u) = l"
  by (cases u) (auto simp: py_lower_def)

lemma year_unit_head:
  assumes "year_unit u r"
  shows "u \<noteq> [] \<and> \<not> is_digit (hd u) \<and> \<not> is_space (hd u)"
proof -
  from assms have "u \<noteq> [] \<and> lower_char (hd u) = CHR ''y''"
    by (auto simp: year_unit_def dest: py_lower_head)
  moreover have "\<not> is_digit CHR ''y''" "\<not> is_space CHR ''y''"
    by (simp_all add: is_digit_def is_space_def)
  ultimately show ?thesis
    by (metis is_digit_lower_char is_space_lower_char)
qed

lemma spaces_unit_head:
  assumes "list_all is_space ws" and "year_unit u r"
  shows "ws @ u @ r \<noteq> [] \<and> \<not> is_digit (hd (ws @ u @ r))"
  using assms year_unit_head [OF assms(2)]
  by (cases ws) (auto simp: is_space_not_digit)

lemma match_years_Some: "match_years s = Some (a, r) \<longleftrightarrow> years_phrase s a r"
proof
  assume "match_years s = Some (a, r)"
  then have a: "a = takeWhile is_digit s" "a \<noteq> []"
    and u: "match_year_unit (dropWhile is_space (dropWhile is_digit s)) = Some r"
    by (auto simp: match_years_def Let_def split: if_splits option.splits)
  from u obtain un where un: "dropWhile is_space (dropWhile is_digit s) = un @ r"
    and y: "year_unit un r"
    by (auto simp: match_year_unit_Some)
  have "s = a @ takeWhile is_space (dropWhile is_digit s) @ un @ r"
    using a(1) un by (metis takeWhile_dropWhile_id)
  with a y show "years_phrase s a r"
    unfolding years_phrase_def
    by (metis list_all_takeWhile)
next
  assume "years_phrase s a r"
  then obtain ws u where s: "s = a @ ws @ u @ r" and a: "a \<noteq> []" "list_all is_digit a"
    and ws: "list_all is_space ws" and y: "year_unit u r"
    by (auto simp: years_phrase_def)
  from spaces_unit_head [OF ws y]
  have t: "takeWhile is_digit s = a" and d: "dropWhile is_digit s = ws @ u @ r"
    using a(2) s by (simp_all add: span_takeWhile span_dropWhile)
  from year_unit_head [OF y] have "dropWhile is_space (ws @ u @ r) = u @ r"
    using ws by (simp add: span_dropWhile)
  moreover have "match_year_unit (u @ r) = Some r"
    using y by (auto simp: match_year_unit_Some)
  ultimately show "match_years s = Some (a, r)"
    using a(1) t d by (simp add: match_years_def)
qed

lemma lower_char_dash: "lower_char c = CHR ''-'' \<longleftrightarrow> c = CHR ''-''"
proof
  assume l: "lower_char c = CHR ''-''"
  have b: "of_char c < (256::nat)"
    by (rule nat_of_char_less_256)
  show "c = CHR ''-''"
  proof (rule ccontr)
    assume n: "c \<noteq> CHR ''-''"
    with l have "lower_char c = char_of (of_char c + 32 :: nat)"
      and r: "(65 \<le> (of_char c :: nat) \<and> (of_char c :: nat) \<le> 90)
        \<or> (192 \<le> (of_char c :: nat) \<and> (of_char c :: nat) \<le> 222)"
      by (auto simp: lower_char_def Let_def split: if_splits)
    with l have "(of_char (char_of (of_char c + 32 :: nat)) :: nat) = of_char CHR ''-''"
      by simp
    with r b show False
      by auto
  qed
next
  assume "c = CHR ''-''"
  then show "lower_char c = CHR ''-''"
    by (simp add: lower_char_def)
qed

lemma is_digit_not_space: "is_digit c \<Longrightarrow> \<not> is_space c"
  by (auto simp: is_space_def is_digit_def Let_def)

lemma separator_head:
  assumes "separator sep"
  shows "sep \<noteq> [] \<and> \<not> is_digit (hd sep) \<and> \<not> is_space (hd sep)"
proof (cases "sep = ''-''")
  case True
  then show ?thesis
    by (simp add: is_digit_def is_space_def)
next
  case False
  with assms have "sep \<noteq> [] \<and> lower_char (hd sep) = CHR ''t''"
    by (auto simp: separator_def dest: py_lower_head)
  moreover have "\<not> is_digit CHR ''t''" "\<not> is_space CHR ''t''"
    by (simp_all add: is_digit_def is_space_def)
  ultimately show ?thesis
    by (metis is_digit_lower_char is_space_lower_char)
qed

lemma match_to_or_dash_Some:
  "match_to_or_dash s = Some r \<longleftrightarrow> (\<exists>sep. s = sep @ r \<and> separator sep)"
proof
  assume m: "match_to_or_dash s = Some r"
  show "\<exists>sep. s = sep @ r \<and> separator sep"
  proof (cases "match_ci ''to'' s")
    case (Some r')
    with m show ?thesis
      by (auto simp: match_to_or_dash_def match_ci_Some separator_def)
  next
    case None
    with m obtain p where p: "s = p @ r" "py_lower p = ''-''"
      by (auto simp: match_to_or_dash_def match_ci_Some)
    then have "p = ''-''"
      by (cases p) (auto simp: py_lower_def lower_char_dash)
    with p show ?thesis
      by (auto simp: separator_def)
  qed
next
  assume "\<exists>sep. s = sep @ r \<and> separator sep"
  then obtain sep where s: "s = sep @ r" and sep: "separator sep"
    by blast
  show "match_to_or_dash s = Some r"
  proof (cases "py_lower sep = ''to''")
    case True
    with s have "match_ci ''to'' s = Some r"
      by (auto simp: match_ci_Some)
    then show ?thesis
      by (simp add: match_to_or_dash_def)
  next
    case False
    with sep have d: "sep = ''-''"
      by (simp add: separator_def)
    have "match_ci ''to'' s = None"
    proof (rule ccontr)
      assume "match_ci ''to'' s \<noteq> None"
      then obtain post where "py_lower s = ''to'' @ post"
        using match_ci_lower [of "''to''" s] by blast
      with s d show False
        by (simp add: py_lower_def lower_char_def)
    qed
    moreover have "match_ci ''-'' s = Some r"
      using s d by (auto simp: match_ci_Some py_lower_def lower_char_def)
    ultimately show ?thesis
      by (simp add: match_to_or_dash_def)
  qed
qed

lemma range_phrase_separator:
  "range_phrase s a b r \<longleftrightarrow>
     (\<exists>ws1 sep ws2 ws3 u.
        s = a @ ws1 @ sep @ ws2 @ b @ ws3 @ u @ r
        \<and> a \<noteq> [] \<and> list_all is_digit a \<and> b \<noteq> [] \<and> list_all is_digit b
        \<and> list_all is_space ws1 \<and> list_all is_space ws2 \<and> list_all is_space ws3
        \<and> separator sep \<and> year_unit u r)"
  by (simp add: range_phrase_def)

lemma digits_head:
  "b \<noteq> [] \<Longrightarrow> list_all is_digit b \<Longrightarrow> b @ t \<noteq> [] \<and> \<not> is_space (hd (b @ t))"
  by (cases b) (auto simp: is_digit_not_space)

lemma spaces_then_head:
  assumes "list_all is_space ws" and "t \<noteq> [] \<and> \<not> is_digit (hd t)"
  shows "ws @ t = [] \<or> \<not> is_digit (hd (ws @ t))"
  using assms by (cases ws) (auto simp: is_space_not_digit)

lemma match_year_range_Some:
  "match_year_range s = Some ((a, b), r) \<longleftrightarrow> range_phrase s a b r"
proof
  assume "match_year_range s = Some ((a, b), r)"
  then obtain r1 where a: "a = takeWhile is_digit s" "a \<noteq> []"
    and t: "match_to_or_dash (dropWhile is_space (dropWhile is_digit s)) = Some r1"
    and b: "b = takeWhile is_digit (dropWhile is_space r1)" "b \<noteq> []"
    and u: "match_year_unit
              (dropWhile is_space (dropWhile is_digit (dropWhile is_space r1))) = Some r"
    by (auto simp: match_year_range_def Let_def split: if_splits option.splits)
  from t obtain sep where sep: "dropWhile is_space (dropWhile is_digit s) = sep @ r1"
    "separator sep"
    by (auto simp: match_to_or_dash_Some)
  from u obtain un where un:
    "dropWhile is_space (dropWhile is_digit (dropWhile is_space r1)) = un @ r"
    "year_unit un r"
    by (auto simp: match_year_unit_Some)
  let ?ws1 = "takeWhile is_space (dropWhile is_digit s)"
  let ?ws2 = "takeWhile is_space r1"
  let ?ws3 = "takeWhile is_space (dropWhile is_digit (dropWhile is_space r1))"
  have "s = a @ ?ws1 @ sep @ r1"
    using a(1) sep(1) by (metis takeWhile_dropWhile_id)
  moreover have "r1 = ?ws2 @ b @ ?ws3 @ un @ r"
    using b(1) un(1) by (metis takeWhile_dropWhile_id)
  ultimately have "s = a @ ?ws1 @ sep @ ?ws2 @ b @ ?ws3 @ un @ r"
    by simp
  with a b sep(2) un(2) show "range_phrase s a b r"
    unfolding range_phrase_separator
    by (metis list_all_takeWhile)
next
  assume "range_phrase s a b r"
  then obtain ws1 sep ws2 ws3 u where
    s: "s = a @ ws1 @ sep @ ws2 @ b @ ws3 @ u @ r"
    and a: "a \<noteq> []" "list_all is_digit a" and b: "b \<noteq> []" "list_all is_digit b"
    and ws: "list_all is_space ws1" "list_all is_space ws2" "list_all is_space ws3"
    and sep: "separator sep" and y: "year_unit u r"
    unfolding range_phrase_separator by blast
  let ?t1 = "ws1 @ sep @ ws2 @ b @ ws3 @ u @ r"
  let ?t2 = "ws2 @ b @ ws3 @ u @ r"
  let ?t3 = "ws3 @ u @ r"
  from separator_head [OF sep]
  have h1: "?t1 = [] \<or> \<not> is_digit (hd ?t1)"
    using ws(1) by (intro spaces_then_head) auto
  have 1: "takeWhile is_digit s = a" "dropWhile is_digit s = ?t1"
    using a(2) h1 unfolding s by (rule span_takeWhile, rule span_dropWhile)
  have 2: "dropWhile is_space ?t1 = sep @ ?t2"
    using ws(1) separator_head [OF sep] by (intro span_dropWhile) auto
  have 3: "match_to_or_dash (sep @ ?t2) = Some ?t2"
    using sep by (auto simp: match_to_or_dash_Some)
  have 4: "dropWhile is_space ?t2 = b @ ?t3"
    using ws(2) digits_head [OF b, of ?t3] by (intro span_dropWhile) auto
  have 5: "takeWhile is_digit (b @ ?t3) = b" "dropWhile is_digit (b @ ?t3) = ?t3"
    using b(2) spaces_unit_head [OF ws(3) y]
    by (intro span_takeWhile span_dropWhile; simp)+
  have 6: "dropWhile is_space ?t3 = u @ r"
    using ws(3) year_unit_head [OF y] by (intro span_dropWhile) auto
  have 7: "match_year_unit (u @ r) = Some r"
    using y by (auto simp: match_year_unit_Some)
  show "match_year_range s = Some ((a, b), r)"
    using a(1) b(1) by (simp add: match_year_range_def 1 2 3 4 5 6 7)
qed

section \<open>The leftmost match of a scan\<close>

lemma leftmost_exists:
  assumes "\<exists>i < length s. P (drop i s)"
  shows "\<exists>pre t. s = pre @ t \<and> leftmost pre t P"
proof -
  define k where "k = (LEAST i. i < length s \<and> P (drop i s))"
  from assms obtain i where "i < length s \<and> P (drop i s)"
    by blast
  then have k: "k < length s \<and> P (drop k s)"
    unfolding k_def by (rule LeastI)
  have "\<not> P (drop i s)" if "i < k" for i
  proof
    assume "P (drop i s)"
    with that k have "i < length s \<and> P (drop i s)"
      by simp
    then have "k \<le> i"
      unfolding k_def by (rule Least_le)
    with that show False by simp
  qed
  with k have "s = take k s @ drop k s \<and> leftmost (take k s) (drop k s) P"
    by (simp add: leftmost_def)
  then show ?thesis
    by blast
qed

lemma all_drop_Cons:
  "(\<forall>i < length (c # cs). Q (drop i (c # cs))) \<longleftrightarrow> Q (c # cs) \<and> (\<forall>i < length cs. Q (drop i cs))"
  by (auto simp: All_less_Suc2)

lemma has_years_match: "has_years s \<longleftrightarrow> match_years s \<noteq> None"
  by (auto simp: has_years_def match_years_Some [symmetric])

lemma has_range_match: "has_range s \<longleftrightarrow> match_year_range s \<noteq> None"
  by (auto simp: has_range_def match_year_range_Some [symmetric])

lemma findall_years_none:
  "findall_years s = [] \<longleftrightarrow> (\<forall>i < length s. \<not> has_years (drop i s))"
proof (induction s)
  case Nil
  then show ?case by simp
next
  case (Cons c cs)
  have "findall_years (c # cs) = [] \<longleftrightarrow> \<not> has_years (c # cs) \<and> findall_years cs = []"
    by (cases "match_years (c # cs)") (auto simp: has_years_match)
  then show ?case
    by (simp add: Cons.IH All_less_Suc2)
qed

lemma findall_years_first:
  assumes "leftmost pre t has_years" and "years_phrase t a r"
  shows "findall_years (pre @ t) = a # findall_years r"
  using assms(1)
proof (induction pre)
  case Nil
  from assms(2) have m: "match_years t = Some (a, r)"
    by (simp add: match_years_Some)
  then have "t \<noteq> []"
    by (auto simp: match_years_def)
  with m show ?case
    by (cases t) auto
next
  case (Cons c pre)
  then have "\<not> has_years (c # pre @ t)" and l: "leftmost pre t has_years"
    by (auto simp: leftmost_def All_less_Suc2)
  then have "match_years (c # pre @ t) = None"
    by (simp only: has_years_match not_not)
  with Cons.IH [OF l] show ?case
    by simp
qed

lemma findall_year_ranges_none:
  "findall_year_ranges s = [] \<longleftrightarrow> (\<forall>i < length s. \<not> has_range (drop i s))"
proof (induction s)
  case Nil
  then show ?case by simp
next
  case (Cons c cs)
  have "findall_year_ranges (c # cs) = [] \<longleftrightarrow> \<not> has_range (c # cs) \<and> findall_year_ranges cs = []"
    by (cases "match_year_range (c # cs)") (auto simp: has_range_match)
  then show ?case
    by (simp add: Cons.IH All_less_Suc2)
qed

lemma findall_year_ranges_first:
  assumes "leftmost pre t has_range" and "range_phrase t a b r"
  shows "findall_year_ranges (pre @ t) = (a, b) # findall_year_ranges r"
  using assms(1)
proof (induction pre)
  case Nil
  from assms(2) have m: "match_year_range t = Some ((a, b), r)"
    by (simp add: match_year_range_Some)
  then have "t \<noteq> []"
    by (auto simp: match_year_range_def)
  with m show ?case
    by (cases t) auto
next
  case (Cons c pre)
  then have "\<not> has_range (c # pre @ t)" and l: "leftmost pre t has_range"
    by (auto simp: leftmost_def All_less_Suc2)
  then have "match_year_range (c # pre @ t) = None"
    by (simp only: has_range_match not_not)
  with Cons.IH [OF l] show ?case
    by simp
qed

lemma ranges_of_findall: "ranges_of s rs \<Longrightarrow> findall_year_ranges s = rs"
proof (induction rule: ranges_of.induct)
  case (no_range s)
  then show ?case
    by (simp add: findall_year_ranges_none)
next
  case (next_range pre t a b r rs)
  then show ?case
    by (simp add: findall_year_ranges_first)
qed

lemma findall_ranges_of: "ranges_of s (findall_year_ranges s)"
proof (induction s rule: length_induct)
  case (1 s)
  show ?case
  proof (cases "\<exists>i < length s. has_range (drop i s)")
    case False
    then have "ranges_of s []"
      by (auto intro: ranges_of.no_range)
    moreover from False have "findall_year_ranges s = []"
      by (simp add: findall_year_ranges_none)
    ultimately show ?thesis by simp
  next
    case True
    then obtain pre t where s: "s = pre @ t" and l: "leftmost pre t has_range"
      using leftmost_exists by blast
    then obtain a b r where p: "range_phrase t a b r"
      by (auto simp: leftmost_def has_range_def)
    then have "length r < length t"
      using match_year_range_length [of t "(a, b)" r] by (simp add: match_year_range_Some)
    with s have "ranges_of r (findall_year_ranges r)"
      using "1.IH" by simp
    with l p have "ranges_of (pre @ t) ((a, b) # findall_year_ranges r)"
      by (rule ranges_of.next_range)
    with s l p show ?thesis
      by (simp add: findall_year_ranges_first)
  qed
qed

lemma ranges_of_iff: "ranges_of s rs \<longleftrightarrow> findall_year_ranges s = rs"
  using ranges_of_findall findall_ranges_of by blast

lemma punishment_start_match: "punishment_start s \<longleftrightarrow> match_ci ''punishment:'' s \<noteq> None"
  by (simp only: punishment_start_def match_ci_lower)

lemma search_punishment_none:
  "search_punishment s = None \<longleftrightarrow> (\<forall>i < length s. \<not> punishment_start (drop i s))"
proof (induction s)
  case Nil
  then show ?case by simp
next
  case (Cons c cs)
  have "search_punishment (c # cs) = None
      \<longleftrightarrow> \<not> punishment_start (c # cs) \<and> search_punishment cs = None"
    by (cases "match_ci ''punishment:'' (c # cs)") (auto simp: punishment_start_match)
  then show ?case
    by (simp add: Cons.IH All_less_Suc2)
qed

lemma search_punishment_first:
  assumes "leftmost pre t punishment_start" and "match_ci ''punishment:'' t = Some r"
  shows "search_punishment (pre @ t)
    = Some (takeWhile (\<lambda>x. x \<noteq> CHR 0x0A) (dropWhile is_space r))"
  using assms(1)
proof (induction pre)
  case Nil
  from assms(2) have "t \<noteq> []"
    by (auto simp: match_ci_def py_lower_def)
  with assms(2) show ?case
    by (cases t) auto
next
  case (Cons c pre)
  then have "\<not> punishment_start (c # pre @ t)" and l: "leftmost pre t punishment_start"
    by (auto simp: leftmost_def All_less_Suc2)
  then have "match_ci ''punishment:'' (c # pre @ t) = None"
    by (simp only: punishment_start_match not_not)
  with Cons.IH [OF l] show ?case
    by simp
qed

lemma punishment_clause_search:
  "punishment_clause text line \<longleftrightarrow> search_punishment text = Some line"
proof
  assume "punishment_clause text line"
  then obtain pre kw ws rest where t: "text = pre @ kw @ ws @ line @ rest"
    and kw: "py_lower kw = ''punishment:''" and ws: "list_all is_space ws"
    and h: "line @ rest = [] \<or> \<not> is_space (hd (line @ rest))"
    and n: "CHR 0x0A \<notin> set line" and r: "rest = [] \<or> hd rest = CHR 0x0A"
    and e: "\<forall>i < length pre. \<not> punishment_start (drop i text)"
    unfolding punishment_clause_def by blast
  let ?t = "kw @ ws @ line @ rest"
  have m: "match_ci ''punishment:'' ?t = Some (ws @ line @ rest)"
    using kw by (auto simp: match_ci_Some)
  then have "punishment_start ?t"
    by (simp add: punishment_start_match)
  with e t have "leftmost pre ?t punishment_start"
    by (simp add: leftmost_def)
  from search_punishment_first [OF this m]
  have "search_punishment text
    = Some (takeWhile (\<lambda>x. x \<noteq> CHR 0x0A) (dropWhile is_space (ws @ line @ rest)))"
    by (simp add: t)
  moreover have "dropWhile is_space (ws @ line @ rest) = line @ rest"
    using ws h by (rule span_dropWhile)
  moreover have "takeWhile (\<lambda>x. x \<noteq> CHR 0x0A) (line @ rest) = line"
    using n r by (intro span_takeWhile) (auto simp: list_all_iff)
  ultimately show "search_punishment text = Some line"
    by simp
next
  assume s: "search_punishment text = Some line"
  then have "\<exists>i < length text. punishment_start (drop i text)"
    using search_punishment_none [of "text"] by auto
  then obtain pre t where t: "text = pre @ t" and l: "leftmost pre t punishment_start"
    using leftmost_exists by blast
  then obtain kw r where k: "t = kw @ r" "py_lower kw = ''punishment:''"
    by (auto simp: leftmost_def punishment_start_match match_ci_Some)
  then have "match_ci ''punishment:'' t = Some r"
    by (auto simp: match_ci_Some)
  from search_punishment_first [OF l this] s t
  have line: "line = takeWhile (\<lambda>x. x \<noteq> CHR 0x0A) (dropWhile is_space r)"
    by simp
  let ?ws = "takeWhile is_space r"
  let ?rest = "dropWhile (\<lambda>x. x \<noteq> CHR 0x0A) (dropWhile is_space r)"
  have lr: "line @ ?rest = dropWhile is_space r"
    by (simp add: line)
  have "text = pre @ kw @ ?ws @ line @ ?rest"
    using t k(1) by (simp add: lr)
  moreover have "list_all is_space ?ws"
    by (rule list_all_takeWhile)
  moreover have "line @ ?rest = [] \<or> \<not> is_space (hd (line @ ?rest))"
    unfolding lr by (rule dropWhile_head)
  moreover have "CHR 0x0A \<notin> set line"
    unfolding line by (auto dest: set_takeWhileD)
  moreover have "?rest = [] \<or> hd ?rest = CHR 0x0A"
    using dropWhile_head [of "\<lambda>x. x \<noteq> CHR 0x0A" "dropWhile is_space r"] by auto
  moreover have "\<forall>i < length pre. \<not> punishment_start (drop i text)"
    using l t by (simp add: leftmost_def)
  ultimately show "punishment_clause text line"
    unfolding punishment_clause_def using k(2) by blast
qed

section \<open>Severity extraction: the rule\<close>

lemma py_startswith_prefix: "py_startswith s p \<longleftrightarrow> prefix p s"
proof
  assume "py_startswith s p"
  then have "s = p @ drop (length p) s"
    by (metis append_take_drop_id py_startswith_def)
  then show "prefix p s"
    by (metis prefixI)
next
  assume "prefix p s"
  then show "py_startswith s p"
    by (auto simp: prefix_def py_startswith_def)
qed

lemma py_in_sublist: "py_in needle hay \<longleftrightarrow> sublist needle hay"
  by (induction hay) (simp_all add: py_startswith_prefix sublist_Cons_right)

lemma py_int_cases:
  "py_int ds = (if length ds \<le> 4300 then Inr (digits_value ds) else Inl ValueError)"
  by (simp add: py_int_def int_max_str_digits_def)

lemma int_all_cases:
  "int_all yrs = (if \<forall>n\<in>set yrs. length n \<le> 4300 then Inr (map digits_value yrs)
                  else Inl ValueError)"
  by (induction yrs) (auto simp: py_int_cases)

lemma py_max_Max: "ns \<noteq> [] \<Longrightarrow> py_max ns = Inr (Max (set ns))"
  by (cases ns) (simp_all add: py_max_def Max.set_eq_fold del: set_simps)

lemma range_strings_Nil: "range_strings rs = [] \<longleftrightarrow> rs = []"
  by (cases rs) (auto simp: range_strings_def)

lemma parse_no_clause:
  assumes "search_punishment text_description = None"
  shows "parse_punishment_years text_description = Inr (None, [])"
  using assms by (simp add: parse_punishment_years_def py_lower_def)

lemma parse_ranges:
  assumes "search_punishment text_description = Some line"
    and "findall_year_ranges (py_strip line) = rs" and "rs \<noteq> []"
  shows "parse_punishment_years text_description =
    (if \<forall>n\<in>set (range_strings rs). length n \<le> 4300
     then Inr (Some (Max (digits_value ` set (range_strings rs))), py_strip line)
     else Inl ValueError)"
proof -
  from assms(3) have "map digits_value (range_strings rs) \<noteq> []"
    by (simp add: range_strings_Nil)
  then have "py_max (map digits_value (range_strings rs))
      = Inr (Max (digits_value ` set (range_strings rs)))"
    by (simp add: py_max_Max)
  with assms show ?thesis
    by (simp add: parse_punishment_years_def Let_def int_all_cases)
qed

lemma parse_years:
  assumes "search_punishment text_description = Some line"
    and "findall_year_ranges (py_strip line) = []"
    and "findall_years (py_strip line) = a # ms"
  shows "parse_punishment_years text_description =
    (if length a \<le> 4300 then Inr (Some (digits_value a), py_strip line) else Inl ValueError)"
  using assms by (simp add: parse_punishment_years_def Let_def py_int_cases)

lemma parse_words:
  assumes "search_punishment text_description = Some line"
    and "findall_year_ranges (py_strip line) = []"
    and "findall_years (py_strip line) = []"
  shows "parse_punishment_years text_description =
    Inr (if sublist ''life'' (py_lower (py_strip line)) then Some 999
         else if sublist ''death'' (py_lower (py_strip line)) then Some 1000
         else None,
         py_strip line)"
  using assms by (simp add: parse_punishment_years_def Let_def py_in_sublist)

lemma py_strip_id:
  assumes "s \<noteq> []" and "\<not> is_space (hd s)" and "\<not> is_space (last s)"
  shows "py_strip s = s"
proof -
  from assms have "dropWhile is_space s = s"
    by (cases s) auto
  moreover from assms have "dropWhile is_space (rev s) = rev s"
    by (cases "rev s") (auto simp: hd_rev)
  ultimately show ?thesis
    by (simp add: py_strip_def)
qed

lemma has_range_digit: "has_range s \<Longrightarrow> s \<noteq> [] \<and> is_digit (hd s)"
  by (cases s) (auto simp: has_range_match match_year_range_def Let_def split: if_splits)

lemma number_of_years_clause:
  assumes "ds \<noteq> []" and "list_all is_digit ds"
  shows "punishment_clause (''Punishment: '' @ ds @ '' years'') (ds @ '' years'')"
proof -
  have "''Punishment: '' @ ds @ '' years'' = [] @ ''Punishment:'' @ '' '' @ (ds @ '' years'') @ []"
    by simp
  moreover have "py_lower ''Punishment:'' = ''punishment:''"
    by code_simp
  moreover have "list_all is_space '' ''"
    by code_simp
  moreover have "\<not> is_space (hd ((ds @ '' years'') @ []))"
    using assms by (cases ds) (auto simp: is_digit_not_space)
  moreover have "CHR 0x0A \<notin> set (ds @ '' years'')"
  proof -
    have "is_space (CHR 0x0A)"
      by code_simp
    then have "CHR 0x0A \<notin> set ds"
      using assms(2) by (auto simp: list_all_iff dest: is_digit_not_space)
    then show ?thesis by simp
  qed
  ultimately show ?thesis
    unfolding punishment_clause_def
    by (intro exI [of _ "[]"] exI [of _ "''Punishment:''"] exI [of _ "'' ''"]) simp
qed

lemma number_of_years_strip:
  assumes "ds \<noteq> []" and "list_all is_digit ds"
  shows "py_strip (ds @ '' years'') = ds @ '' years''"
proof -
  have "\<not> is_space (hd (ds @ '' years''))"
    using assms by (cases ds) (auto simp: is_digit_not_space)
  moreover have "\<not> is_space (last (ds @ '' years''))"
    by (simp add: is_space_def)
  ultimately show ?thesis
    by (intro py_strip_id) simp_all
qed

lemma number_of_years_no_range:
  assumes "list_all is_digit ds"
  shows "ranges_of (ds @ '' years'') []"
proof (rule ranges_of.no_range, intro allI impI)
  fix i
  assume "i < length (ds @ '' years'')"
  have "match_year_range (drop i (ds @ '' years'')) = None"
  proof (cases "i < length ds")
    case True
    then have d: "drop i (ds @ '' years'') = drop i ds @ '' years''"
      by simp
    have a: "list_all is_digit (drop i ds)"
      using assms by (auto simp: list_all_iff dest: in_set_dropD)
    have h: "\<not> is_digit (hd '' years'')"
      by (simp add: is_digit_def)
    have e1: "dropWhile is_digit (drop i ds @ '' years'') = '' years''"
      using a h by (intro span_dropWhile) simp_all
    have e2: "match_to_or_dash (dropWhile is_space '' years'') = None"
      by code_simp
    show ?thesis
      by (simp only: d match_year_range_def Let_def e1 e2 option.case if_cancel)
  next
    case False
    then have d: "drop i (ds @ '' years'') = drop (i - length ds) '' years''"
      by simp
    have nd: "\<not> is_digit c" if "c \<in> set '' years''" for c
      using that by (auto simp: is_digit_def)
    have "takeWhile is_digit (drop (i - length ds) '' years'') = []"
    proof (cases "drop (i - length ds) '' years''")
      case Nil
      then show ?thesis by simp
    next
      case (Cons c cs)
      then have "c \<in> set (drop (i - length ds) '' years'')"
        by simp
      then have "c \<in> set '' years''"
        by (rule in_set_dropD)
      then have "\<not> is_digit c"
        by (rule nd)
      with Cons show ?thesis by simp
    qed
    then show ?thesis
      by (simp only: d match_year_range_def Let_def simp_thms if_True)
  qed
  then show "\<not> has_range (drop i (ds @ '' years''))"
    by (simp add: has_range_match)
qed

lemma number_of_years_phrase:
  assumes "ds \<noteq> []" and "list_all is_digit ds"
  shows "leftmost [] (ds @ '' years'') has_years \<and> years_phrase (ds @ '' years'') ds []"
proof -
  have "year_unit ''years'' []"
    unfolding year_unit_def by code_simp
  moreover have "list_all is_space '' ''"
    by code_simp
  ultimately have "years_phrase (ds @ '' years'') ds []"
    using assms unfolding years_phrase_def
    by (intro exI [of _ "'' ''"] exI [of _ "''years''"]) simp
  then show ?thesis
    by (auto simp: leftmost_def has_years_def)
qed

lemma parse_number_of_years:
  assumes "ds \<noteq> []" and "list_all is_digit ds"
  shows "parse_punishment_years (''Punishment: '' @ ds @ '' years'') =
    (if length ds \<le> 4300 then Inr (Some (digits_value ds), ds @ '' years'')
     else Inl ValueError)"
proof -
  note s = number_of_years_strip [OF assms]
  have "search_punishment (''Punishment: '' @ ds @ '' years'') = Some (ds @ '' years'')"
    using number_of_years_clause [OF assms] by (simp add: punishment_clause_search)
  moreover have "findall_year_ranges (py_strip (ds @ '' years'')) = []"
    using number_of_years_no_range [OF assms(2)] by (simp add: s ranges_of_iff)
  moreover have "findall_years (py_strip (ds @ '' years'')) = ds # findall_years []"
    using number_of_years_phrase [OF assms] findall_years_first [of "[]" "ds @ '' years''" ds "[]"]
    by (simp add: s)
  ultimately show ?thesis
    using parse_years [of "''Punishment: '' @ ds @ '' years''" "ds @ '' years''" ds "findall_years []"]
    by (simp add: s)
qed

lemma replicate_digits: "list_all is_digit (replicate n CHR ''9'')"
  by (simp add: list_all_iff is_digit_def)

text \<open>
  Claim C5, as the code has it. \<open>parse_punishment_years\<close> follows these steps. A text
  with no "Punishment:" (in any letter case) gives no years and the empty clause.
  Otherwise the clause is what follows the leftmost "Punishment:" and the white space
  after it up to the end of the line, without its outer white space. If the clause holds
  ranges (two numbers with "to" or a dash between them and "years" or "year" after them,
  in any letter case, with any white space between the parts), the result is the
  greatest bound of all ranges, taken from left to right without overlap. Else, if it
  holds a number followed by "years" or "year", the leftmost such number is the result.
  Else "life" in the lower-cased clause gives 999, else "death" gives 1000, else there
  are no years. A number of more than 4300 digits that is converted raises
  \<open>ValueError\<close>. The texts of the specification give 7, 999 and 1000, and one text is
  evaluated for every step.
\<close>

theorem parse_punishment_years_rule:
  "(\<not> (\<exists>i < length text_description. punishment_start (drop i text_description)) \<longrightarrow>
      parse_punishment_years text_description = Inr (None, []))
   \<and> ((\<exists>i < length text_description. punishment_start (drop i text_description)) \<longrightarrow>
        (\<exists>line. punishment_clause text_description line))
   \<and> (\<forall>line. punishment_clause text_description line \<longrightarrow>
        (\<exists>rs. ranges_of (py_strip line) rs)
        \<and> (\<forall>rs. ranges_of (py_strip line) rs \<and> rs \<noteq> [] \<longrightarrow>
              parse_punishment_years text_description =
                (if \<forall>n\<in>set (range_strings rs). length n \<le> 4300
                 then Inr (Some (Max (digits_value ` set (range_strings rs))), py_strip line)
                 else Inl ValueError))
        \<and> (ranges_of (py_strip line) [] \<longrightarrow>
              (\<forall>pre t a r.
                  py_strip line = pre @ t \<and> leftmost pre t has_years \<and> years_phrase t a r \<longrightarrow>
                  parse_punishment_years text_description =
                    (if length a \<le> 4300 then Inr (Some (digits_value a), py_strip line)
                     else Inl ValueError))
              \<and> ((\<forall>i < length (py_strip line). \<not> has_years (drop i (py_strip line))) \<longrightarrow>
                    parse_punishment_years text_description =
                      Inr (if sublist ''life'' (py_lower (py_strip line)) then Some 999
                           else if sublist ''death'' (py_lower (py_strip line)) then Some 1000
                           else None,
                           py_strip line))))
   \<and> parse_punishment_years ''IPC 441: Criminal trespass.'' = Inr (None, [])
   \<and> parse_punishment_years ''Punishment: 3 to 7 years'' = Inr (Some 7, ''3 to 7 years'')
   \<and> parse_punishment_years ''IPC 379: Theft. Punishment: up to 3 years, or fine''
       = Inr (Some 3, ''up to 3 years, or fine'')
   \<and> parse_punishment_years ''Punishment: imprisonment for life''
       = Inr (Some 999, ''imprisonment for life'')
   \<and> parse_punishment_years ''Punishment: death'' = Inr (Some 1000, ''death'')
   \<and> parse_punishment_years ''Punishment: fine only'' = Inr (None, ''fine only'')"
proof (intro conjI allI impI)
  assume "\<not> (\<exists>i < length text_description. punishment_start (drop i text_description))"
  then have "search_punishment text_description = None"
    by (simp add: search_punishment_none)
  then show "parse_punishment_years text_description = Inr (None, [])"
    by (rule parse_no_clause)
next
  assume "\<exists>i < length text_description. punishment_start (drop i text_description)"
  then have "search_punishment text_description \<noteq> None"
    by (simp add: search_punishment_none)
  then show "\<exists>line. punishment_clause text_description line"
    by (auto simp: punishment_clause_search)
next
  fix line
  show "\<exists>rs. ranges_of (py_strip line) rs"
    using findall_ranges_of by blast
next
  fix line rs
  assume "punishment_clause text_description line"
    and "ranges_of (py_strip line) rs \<and> rs \<noteq> []"
  then show "parse_punishment_years text_description =
                (if \<forall>n\<in>set (range_strings rs). length n \<le> 4300
                 then Inr (Some (Max (digits_value ` set (range_strings rs))), py_strip line)
                 else Inl ValueError)"
    by (intro parse_ranges) (simp_all add: punishment_clause_search ranges_of_iff)
next
  fix line pre t a r
  assume c: "punishment_clause text_description line"
    and n: "ranges_of (py_strip line) []"
    and y: "py_strip line = pre @ t \<and> leftmost pre t has_years \<and> years_phrase t a r"
  then have "findall_years (py_strip line) = a # findall_years r"
    by (simp add: findall_years_first)
  with c n show "parse_punishment_years text_description =
      (if length a \<le> 4300 then Inr (Some (digits_value a), py_strip line)
       else Inl ValueError)"
    by (intro parse_years) (simp_all add: punishment_clause_search ranges_of_iff)
next
  fix line
  assume c: "punishment_clause text_description line"
    and n: "ranges_of (py_strip line) []"
    and y: "\<forall>i < length (py_strip line). \<not> has_years (drop i (py_strip line))"
  then have "findall_years (py_strip line) = []"
    by (simp add: findall_years_none)
  with c n show "parse_punishment_years text_description =
      Inr (if sublist ''life'' (py_lower (py_strip line)) then Some 999
           else if sublist ''death'' (py_lower (py_strip line)) then Some 1000
           else None,
           py_strip line)"
    by (intro parse_words) (simp_all add: punishment_clause_search ranges_of_iff)
next
  show "parse_punishment_years ''IPC 441: Criminal trespass.'' = Inr (None, [])"
    by code_simp
  show "parse_punishment_years ''Punishment: 3 to 7 years'' = Inr (Some 7, ''3 to 7 years'')"
    by code_simp
  show "parse_punishment_years ''IPC 379: Theft. Punishment: up to 3 years, or fine''
       = Inr (Some 3, ''up to 3 years, or fine'')"
    by code_simp
  show "parse_punishment_years ''Punishment: imprisonment for life''
       = Inr (Some 999, ''imprisonment for life'')"
    by code_simp
  show "parse_punishment_years ''Punishment: death'' = Inr (Some 1000, ''death'')"
    by code_simp
  show "parse_punishment_years ''Punishment: fine only'' = Inr (None, ''fine only'')"
    by code_simp
qed

theorem parse_punishment_years_rule_witness:
  "parse_punishment_years (''Punishment: '' @ replicate 4301 CHR ''9'' @ '' years'')
     = Inl ValueError
   \<and> parse_punishment_years ''IPC 379: Theft. Punishment: 1 to 3 years, or 12 - 5 year''
     = Inr (Some 12, ''1 to 3 years, or 12 - 5 year'')"
proof (rule conjI)
  let ?ds = "replicate 4301 CHR ''9''"
  have ne: "?ds \<noteq> []"
    by simp
  note d = replicate_digits [of 4301]
  note rule = parse_punishment_years_rule [of "''Punishment: '' @ ?ds @ '' years''"]
  have c: "punishment_clause (''Punishment: '' @ ?ds @ '' years'') (?ds @ '' years'')"
    using ne d by (rule number_of_years_clause)
  have s: "py_strip (?ds @ '' years'') = ?ds @ '' years''"
    using ne d by (rule number_of_years_strip)
  have n: "ranges_of (py_strip (?ds @ '' years'')) []"
    unfolding s using d by (rule number_of_years_no_range)
  have y: "py_strip (?ds @ '' years'') = [] @ (?ds @ '' years'')
      \<and> leftmost [] (?ds @ '' years'') has_years \<and> years_phrase (?ds @ '' years'') ?ds []"
    using number_of_years_phrase [OF ne d] s by simp
  from rule c n y
  have "parse_punishment_years (''Punishment: '' @ ?ds @ '' years'') =
      (if length ?ds \<le> 4300 then Inr (Some (digits_value ?ds), py_strip (?ds @ '' years''))
       else Inl ValueError)"
    by blast
  then show "parse_punishment_years (''Punishment: '' @ ?ds @ '' years'') = Inl ValueError"
    by simp
next
  let ?t = "''IPC 379: Theft. Punishment: 1 to 3 years, or 12 - 5 year''"
  let ?c = "''1 to 3 years, or 12 - 5 year''"
  have "search_punishment ?t = Some ?c"
    by code_simp
  then have c: "punishment_clause ?t ?c"
    by (simp only: punishment_clause_search)
  have s: "py_strip ?c = ?c"
    by code_simp
  have "findall_year_ranges ?c = [(''1'', ''3''), (''12'', ''5'')]"
    by code_simp
  then have r: "ranges_of (py_strip ?c) [(''1'', ''3''), (''12'', ''5'')]
      \<and> [(''1'', ''3''), (''12'', ''5'')] \<noteq> []"
    by (simp only: s ranges_of_iff) simp
  have l: "\<forall>n\<in>set (range_strings [(''1'', ''3''), (''12'', ''5'')]). length n \<le> 4300"
    by (simp add: range_strings_def)
  have m: "Max (digits_value ` set (range_strings [(''1'', ''3''), (''12'', ''5'')])) = 12"
    by code_simp
  from parse_punishment_years_rule [of ?t] c r
  have "parse_punishment_years ?t =
      (if \<forall>n\<in>set (range_strings [(''1'', ''3''), (''12'', ''5'')]). length n \<le> 4300
       then Inr (Some (Max (digits_value ` set (range_strings [(''1'', ''3''), (''12'', ''5'')]))),
                 py_strip ?c)
       else Inl ValueError)"
    by blast
  then show "parse_punishment_years ?t = Inr (Some 12, ?c)"
    by (simp only: m s if_P [OF l])
qed

text \<open>
  The claim as stated has ranges with "to" only and a result for every text. In the
  source a dash makes a range as well, so "7-3 years" gives 7, where the first number
  before "years" is 3; and a number of 4301 digits raises \<open>ValueError\<close>.
\<close>

theorem dash_range_and_long_number:
  "parse_punishment_years ''Punishment: 7-3 years'' = Inr (Some 7, ''7-3 years'')
   \<and> \<not> sublist ''to'' (py_lower ''7-3 years'')
   \<and> findall_years ''7-3 years'' = [''3'']
   \<and> parse_punishment_years (''Punishment: '' @ replicate 4301 CHR ''9'' @ '' years'')
       = Inl ValueError"
proof (intro conjI)
  show "parse_punishment_years ''Punishment: 7-3 years'' = Inr (Some 7, ''7-3 years'')"
    by code_simp
  show "\<not> sublist ''to'' (py_lower ''7-3 years'')"
    by code_simp
  show "findall_years ''7-3 years'' = [''3'']"
    by code_simp
  show "parse_punishment_years (''Punishment: '' @ replicate 4301 CHR ''9'' @ '' years'')
       = Inl ValueError"
    using parse_number_of_years [OF _ replicate_digits, of 4301] by simp
qed

section \<open>The numeric filter\<close>

lemma filter_start_match: "filter_start s \<longleftrightarrow> match_greater_than s \<noteq> None"
proof
  assume "filter_start s"
  then obtain d post where l: "py_lower s = ''greater than '' @ d # post" and d: "is_digit d"
    unfolding filter_start_def by blast
  then have "match_ci ''greater than '' s \<noteq> None"
    using match_ci_lower [of "''greater than ''" s] by blast
  then obtain p r where s: "s = p @ r" and p: "py_lower p = ''greater than ''"
    and m: "match_ci ''greater than '' s = Some r"
    using match_ci_Some [of "''greater than ''" s] by blast
  from s p have "py_lower s = ''greater than '' @ py_lower r"
    by (simp add: py_lower_def)
  with l have "py_lower r = d # post"
    by simp
  then obtain d0 r0 where r: "r = d0 # r0" and "lower_char d0 = d"
    by (auto simp: py_lower_def)
  with d have "is_digit d0"
    by auto
  with r have "takeWhile is_digit r \<noteq> []"
    by simp
  with m show "match_greater_than s \<noteq> None"
    by (simp add: match_greater_than_def)
next
  assume "match_greater_than s \<noteq> None"
  then obtain r where m: "match_ci ''greater than '' s = Some r"
    and t: "takeWhile is_digit r \<noteq> []"
    by (auto simp: match_greater_than_def split: option.splits if_splits)
  from m obtain p where s: "s = p @ r" and p: "py_lower p = ''greater than ''"
    using match_ci_Some [of "''greater than ''" s r] by blast
  from t obtain d0 r0 where r: "r = d0 # r0" and d: "is_digit d0"
    by (cases r) (auto split: if_splits)
  from s p r have "py_lower s = ''greater than '' @ lower_char d0 # py_lower r0"
    by (simp add: py_lower_def)
  moreover from d have "is_digit (lower_char d0)"
    by simp
  ultimately show "filter_start s"
    unfolding filter_start_def by blast
qed

lemma search_greater_than_none:
  "search_greater_than s = None \<longleftrightarrow> (\<forall>i < length s. \<not> filter_start (drop i s))"
proof (induction s)
  case Nil
  then show ?case by simp
next
  case (Cons c cs)
  have "search_greater_than (c # cs) = None
      \<longleftrightarrow> \<not> filter_start (c # cs) \<and> search_greater_than cs = None"
    by (cases "match_greater_than (c # cs)") (auto simp: filter_start_match)
  then show ?case
    by (simp add: Cons.IH All_less_Suc2)
qed

lemma search_greater_than_first:
  assumes "leftmost pre t filter_start" and "match_greater_than t = Some g"
  shows "search_greater_than (pre @ t) = Some g"
  using assms(1)
proof (induction pre)
  case Nil
  from assms(2) have "t \<noteq> []"
    by (auto simp: match_greater_than_def match_ci_def py_lower_def)
  with assms(2) show ?case
    by (cases t) auto
next
  case (Cons c pre)
  then have "\<not> filter_start (c # pre @ t)" and l: "leftmost pre t filter_start"
    by (auto simp: leftmost_def All_less_Suc2)
  then have "match_greater_than (c # pre @ t) = None"
    by (simp only: filter_start_match not_not)
  with Cons.IH [OF l] show ?case
    by simp
qed

lemma filter_phrase_search:
  "filter_phrase query digits \<longleftrightarrow> search_greater_than query = Some digits"
proof
  assume "filter_phrase query digits"
  then obtain pre phrase post where q: "query = pre @ phrase @ digits @ post"
    and p: "py_lower phrase = ''greater than ''"
    and d: "digits \<noteq> []" "list_all is_digit digits"
    and h: "post = [] \<or> \<not> is_digit (hd post)"
    and e: "\<forall>i < length pre. \<not> filter_start (drop i query)"
    unfolding filter_phrase_def by blast
  let ?t = "phrase @ digits @ post"
  have "match_ci ''greater than '' ?t = Some (digits @ post)"
    using p by (auto simp: match_ci_Some)
  moreover have "takeWhile is_digit (digits @ post) = digits"
    using d(2) h by (rule span_takeWhile)
  ultimately have m: "match_greater_than ?t = Some digits"
    using d(1) by (simp add: match_greater_than_def)
  then have "filter_start ?t"
    by (simp add: filter_start_match)
  with e q have "leftmost pre ?t filter_start"
    by (simp add: leftmost_def)
  from search_greater_than_first [OF this m] show "search_greater_than query = Some digits"
    by (simp add: q)
next
  assume s: "search_greater_than query = Some digits"
  then have "\<exists>i < length query. filter_start (drop i query)"
    using search_greater_than_none [of query] by auto
  then obtain pre t where q: "query = pre @ t" and l: "leftmost pre t filter_start"
    using leftmost_exists by blast
  then obtain g where m: "match_greater_than t = Some g"
    by (auto simp: leftmost_def filter_start_match)
  from search_greater_than_first [OF l m] s q have g: "g = digits"
    by simp
  from m obtain r where r: "match_ci ''greater than '' t = Some r"
    and t: "g = takeWhile is_digit r" "g \<noteq> []"
    by (auto simp: match_greater_than_def split: option.splits if_splits)
  from r obtain phrase where p: "t = phrase @ r" "py_lower phrase = ''greater than ''"
    using match_ci_Some [of "''greater than ''" t r] by blast
  have "query = pre @ phrase @ digits @ dropWhile is_digit r"
    using q p(1) t(1) g by simp
  moreover have "list_all is_digit digits"
    using t(1) g list_all_takeWhile by metis
  moreover have "dropWhile is_digit r = [] \<or> \<not> is_digit (hd (dropWhile is_digit r))"
    by (rule dropWhile_head)
  moreover have "\<forall>i < length pre. \<not> filter_start (drop i query)"
    using l q by (simp add: leftmost_def)
  ultimately show "filter_phrase query digits"
    unfolding filter_phrase_def using p(2) t(2) g by blast
qed

lemma numeric_filter_phrase:
  "filter_phrase query digits \<Longrightarrow>
     numeric_filter query =
       (if length digits \<le> 4300 then Inr (Some (digits_value digits)) else Inl ValueError)"
  by (simp add: filter_phrase_search numeric_filter_def py_int_cases)

text \<open>
  Claim C6, as the code has it. The numeric filter is inactive, and raises nothing,
  exactly when nowhere in the query "greater than " in any letter case is followed by a
  digit. Otherwise the query has a leftmost such place, and the threshold is the integer
  that the whole run of digits after it writes: a year unit may follow the digits and
  need not. A run of more than 4300 digits raises \<open>ValueError\<close>.
\<close>

theorem numeric_filter_leftmost_phrase:
  "(numeric_filter query = Inr None \<longleftrightarrow> \<not> (\<exists>i < length query. filter_start (drop i query)))
   \<and> ((\<exists>i < length query. filter_start (drop i query)) \<longrightarrow>
        (\<exists>digits. filter_phrase query digits))
   \<and> (\<forall>digits. filter_phrase query digits \<longrightarrow>
        numeric_filter query =
          (if length digits \<le> 4300 then Inr (Some (digits_value digits))
           else Inl ValueError))"
proof (intro conjI allI impI)
  show "numeric_filter query = Inr None \<longleftrightarrow> \<not> (\<exists>i < length query. filter_start (drop i query))"
  proof (cases "search_greater_than query")
    case None
    then show ?thesis
      using search_greater_than_none [of query] by (simp add: numeric_filter_def)
  next
    case (Some g)
    then have "\<exists>i < length query. filter_start (drop i query)"
      using search_greater_than_none [of query] by auto
    moreover from Some have "numeric_filter query \<noteq> Inr None"
      by (simp add: numeric_filter_def py_int_cases)
    ultimately show ?thesis by simp
  qed
next
  assume "\<exists>i < length query. filter_start (drop i query)"
  then have "search_greater_than query \<noteq> None"
    by (simp add: search_greater_than_none)
  then show "\<exists>digits. filter_phrase query digits"
    by (auto simp: filter_phrase_search)
next
  fix digits
  assume "filter_phrase query digits"
  then show "numeric_filter query =
          (if length digits \<le> 4300 then Inr (Some (digits_value digits))
           else Inl ValueError)"
    by (rule numeric_filter_phrase)
qed

theorem numeric_filter_leftmost_phrase_witness:
  "numeric_filter ''Punishment GREATER THAN 15 lashes'' = Inr (Some 15)
   \<and> numeric_filter ''punishment greater than seven years'' = Inr None
   \<and> numeric_filter (''greater than '' @ replicate 4301 CHR ''9'') = Inl ValueError"
proof (intro conjI)
  have "search_greater_than ''Punishment GREATER THAN 15 lashes'' = Some ''15''"
    by code_simp
  then have "filter_phrase ''Punishment GREATER THAN 15 lashes'' ''15''"
    by (simp only: filter_phrase_search)
  with numeric_filter_leftmost_phrase [of "''Punishment GREATER THAN 15 lashes''"]
  have "numeric_filter ''Punishment GREATER THAN 15 lashes'' =
      (if length ''15'' \<le> 4300 then Inr (Some (digits_value ''15'')) else Inl ValueError)"
    by blast
  moreover have "digits_value ''15'' = 15"
    by code_simp
  ultimately show "numeric_filter ''Punishment GREATER THAN 15 lashes'' = Inr (Some 15)"
    by simp
next
  have "search_greater_than ''punishment greater than seven years'' = None"
    by code_simp
  then have "\<not> (\<exists>i < length ''punishment greater than seven years''.
      filter_start (drop i ''punishment greater than seven years''))"
    by (simp only: search_greater_than_none) simp
  with numeric_filter_leftmost_phrase [of "''punishment greater than seven years''"]
  show "numeric_filter ''punishment greater than seven years'' = Inr None"
    by blast
next
  let ?ds = "replicate 4301 CHR ''9''"
  have "list_all is_digit ?ds"
    by (simp add: list_all_iff is_digit_def)
  moreover have "py_lower ''greater than '' = ''greater than ''"
    by code_simp
  ultimately have "filter_phrase (''greater than '' @ ?ds) ?ds"
    unfolding filter_phrase_def
    by (intro exI [of _ "[]"] exI [of _ "''greater than ''"]) simp
  with numeric_filter_leftmost_phrase [of "''greater than '' @ ?ds"]
  have "numeric_filter (''greater than '' @ ?ds) =
      (if length ?ds \<le> 4300 then Inr (Some (digits_value ?ds)) else Inl ValueError)"
    by blast
  then show "numeric_filter (''greater than '' @ ?ds) = Inl ValueError"
    by simp
qed

text \<open>
  The claim as stated asks for a year unit after the integer. The pattern of the source
  makes the unit optional, so the filter is active for a query that goes on with another
  word.
\<close>

theorem numeric_filter_without_unit:
  "numeric_filter ''punishment greater than 5 rupees'' = Inr (Some 5)"
  by code_simp

section \<open>Merge and deduplication\<close>

lemma takeWhile_neq_shorter: "a \<in> set pre \<Longrightarrow> length (takeWhile (\<lambda>y. y \<noteq> a) pre) < length pre"
  by (induction pre) auto

lemma first_index_in_prefix: "a \<in> set pre \<Longrightarrow> first_index (pre @ ys) a < length pre"
  unfolding first_index_def
  by (simp add: takeWhile_append1 takeWhile_neq_shorter)

lemma first_index_after_prefix: "x \<notin> set pre \<Longrightarrow> first_index (pre @ x # ys) x = length pre"
  unfolding first_index_def
  by (subst takeWhile_append2) auto

lemma combine_results_set:
  "seen = set combined \<Longrightarrow> set (combine_results items combined seen) = set combined \<union> set items"
proof (induction items arbitrary: combined seen)
  case Nil
  then show ?case by simp
next
  case (Cons x items)
  have "set (combine_results items (combined @ [x]) (insert x seen))
          = set (combined @ [x]) \<union> set items"
    by (rule Cons.IH) (simp add: Cons.prems)
  moreover have "set (combine_results items combined seen) = set combined \<union> set items"
    by (rule Cons.IH) (rule Cons.prems)
  ultimately show ?case
    using Cons.prems by auto
qed

lemma combine_results_distinct:
  "seen = set combined \<Longrightarrow> distinct combined \<Longrightarrow> distinct (combine_results items combined seen)"
proof (induction items arbitrary: combined seen)
  case Nil
  then show ?case by simp
next
  case (Cons x items)
  show ?case
  proof (cases "x \<in> seen")
    case True
    with Cons.IH [OF Cons.prems] show ?thesis by simp
  next
    case False
    have "distinct (combine_results items (combined @ [x]) (insert x seen))"
      by (rule Cons.IH) (use Cons.prems False in auto)
    with False show ?thesis by simp
  qed
qed

lemma combine_results_order:
  "seen = set combined \<Longrightarrow> set combined = set pre \<Longrightarrow>
   sorted_wrt (\<lambda>a b. first_index (pre @ items) a < first_index (pre @ items) b) combined \<Longrightarrow>
   sorted_wrt (\<lambda>a b. first_index (pre @ items) a < first_index (pre @ items) b)
     (combine_results items combined seen)"
proof (induction items arbitrary: combined seen pre)
  case Nil
  then show ?case by simp
next
  case (Cons x items)
  let ?R = "\<lambda>a b. first_index (pre @ x # items) a < first_index (pre @ x # items) b"
  have sorted: "sorted_wrt ?R combined"
    using Cons.prems(3) .
  show ?case
  proof (cases "x \<in> seen")
    case True
    with Cons.prems have "set combined = set (pre @ [x])"
      by auto
    with Cons.prems(1) sorted
    have "sorted_wrt ?R (combine_results items combined seen)"
      using Cons.IH [of seen combined "pre @ [x]"] by simp
    with True show ?thesis by simp
  next
    case False
    with Cons.prems have notin: "x \<notin> set pre"
      by simp
    have "\<forall>a\<in>set combined. ?R a x"
      using Cons.prems(2) first_index_in_prefix [of _ pre "x # items"]
        first_index_after_prefix [OF notin, of items]
      by simp
    with sorted have "sorted_wrt ?R (combined @ [x])"
      by (simp add: sorted_wrt_append)
    moreover have "insert x seen = set (combined @ [x])"
      using Cons.prems(1) by simp
    moreover have "set (combined @ [x]) = set (pre @ [x])"
      using Cons.prems(2) by simp
    ultimately have "sorted_wrt ?R (combine_results items (combined @ [x]) (insert x seen))"
      using Cons.IH [of "insert x seen" "combined @ [x]" "pre @ [x]"] by simp
    with False show ?thesis by simp
  qed
qed

text \<open>
  Claim C3. For the candidate lists of the keyword matcher, the exact-identifier matcher
  and the vector matcher, the merge step gives a list that holds every text of the three
  lists, each once, ordered by the first occurrence of the text in the concatenation
  keyword, exact-identifier, vector. Two texts are the same document when they are equal
  as strings.
\<close>

theorem combine_results_first_occurrence:
  "set (combine_results (keyword @ exact @ semantic) [] {})
     = set keyword \<union> set exact \<union> set semantic
   \<and> distinct (combine_results (keyword @ exact @ semantic) [] {})
   \<and> sorted_wrt (\<lambda>a b. first_index (keyword @ exact @ semantic) a
                         < first_index (keyword @ exact @ semantic) b)
        (combine_results (keyword @ exact @ semantic) [] {})"
  using combine_results_set [of "{}" "[]" "keyword @ exact @ semantic"]
    combine_results_distinct [of "{}" "[]" "keyword @ exact @ semantic"]
    combine_results_order [of "{}" "[]" "[]" "keyword @ exact @ semantic"]
  by (simp add: Un_assoc)

theorem combine_results_first_occurrence_witness:
  "combine_results ([''a'', ''b''] @ [''b'', ''c''] @ [''c'', ''a'', ''d'']) [] {}
     = [''a'', ''b'', ''c'', ''d'']
   \<and> distinct (combine_results ([''a'', ''b''] @ [''b'', ''c''] @ [''c'', ''a'', ''d'']) [] {})"
proof -
  have "combine_results ([''a'', ''b''] @ [''b'', ''c''] @ [''c'', ''a'', ''d'']) [] {}
     = [''a'', ''b'', ''c'', ''d'']"
    by code_simp
  moreover
  from combine_results_first_occurrence [of "[''a'', ''b'']" "[''b'', ''c'']" "[''c'', ''a'', ''d'']"]
  have "distinct (combine_results ([''a'', ''b''] @ [''b'', ''c''] @ [''c'', ''a'', ''d'']) [] {})"
    by (elim conjE)
  ultimately show ?thesis
    by (rule conjI)
qed

section \<open>Re-ranking\<close>

lemma sort_key_map_pair:
  "map fst (sort_key (\<lambda>x. - snd x) (map (\<lambda>d. (d, f d)) docs)) = sort_key (\<lambda>d. - f d) docs"
  for f :: "'a \<Rightarrow> real"
proof (induction docs)
  case Nil
  then show ?case by simp
next
  case (Cons d docs)
  have ins: "map fst (insort_key (\<lambda>x. - snd x) (d, f d) ps) = insort_key (\<lambda>d. - f d) d (map fst ps)"
    if "\<forall>p\<in>set ps. snd p = f (fst p)" for ps :: "('a \<times> real) list"
    using that by (induction ps) auto
  have "\<forall>p\<in>set (sort_key (\<lambda>x. - snd x) (map (\<lambda>d. (d, f d)) docs)). snd p = f (fst p)"
    by auto
  from ins [OF this] Cons show ?case by simp
qed

lemma py_slice_to_take: "\<exists>n. py_slice_to xs k = take n xs"
  by (auto simp: py_slice_to_def)

lemma map_py_slice_to: "map f (py_slice_to xs k) = py_slice_to (map f xs) k"
  by (simp add: py_slice_to_def take_map)

lemma rerank_sort_key:
  "rerank re_ranker_model query docs k =
     py_slice_to (sort_key (\<lambda>doc. - re_ranker_model query doc) docs) k"
proof -
  have "zip docs (predict re_ranker_model (map (\<lambda>doc. (query, doc)) docs))
          = map (\<lambda>doc. (doc, re_ranker_model query doc)) docs"
    by (induction docs) (simp_all add: predict_def)
  then show ?thesis
    by (simp add: rerank_def Let_def map_py_slice_to sort_key_map_pair)
qed

lemma sorted_desc_sort_key:
  "sorted_wrt (\<lambda>a b. f b \<le> f a) (sort_key (\<lambda>d. - f d) docs)" for f :: "'a \<Rightarrow> real"
proof -
  have "sorted (map (\<lambda>d. - f d) (sort_key (\<lambda>d. - f d) docs))"
    by (rule sorted_sort_key)
  then show ?thesis
    by (simp add: sorted_map)
qed

text \<open>
  Claim C4. For a list of distinct candidate documents and any scores of the (query,
  document) pairs, the re-ranking step returns documents of its input, none twice, in
  descending order of score, and for a bound \<open>k \<ge> 0\<close> the first \<open>k\<close> of the sorted list,
  so at most \<open>k\<close> of them: \<open>k_final\<close> on the hybrid path, 20 on the numeric-filter path.
\<close>

theorem rerank_sorted_subset:
  assumes "distinct docs"
  shows "set (rerank re_ranker_model query docs k) \<subseteq> set docs
       \<and> distinct (rerank re_ranker_model query docs k)
       \<and> sorted_wrt (\<lambda>a b. re_ranker_model query b \<le> re_ranker_model query a)
            (rerank re_ranker_model query docs k)
       \<and> (0 \<le> k \<longrightarrow>
            int (length (rerank re_ranker_model query docs k)) \<le> k
            \<and> rerank re_ranker_model query docs k
                = take (nat k) (sort_key (\<lambda>doc. - re_ranker_model query doc) docs))
       \<and> length (rerank re_ranker_model query docs 20) \<le> 20"
proof -
  let ?sorted = "sort_key (\<lambda>doc. - re_ranker_model query doc) docs"
  obtain n where n: "rerank re_ranker_model query docs k = take n ?sorted"
    using py_slice_to_take [of ?sorted k] by (auto simp: rerank_sort_key)
  have "set (take n ?sorted) \<subseteq> set docs"
    using set_take_subset [of n ?sorted] by simp
  moreover have "distinct (take n ?sorted)"
    using assms by simp
  moreover have "sorted_wrt (\<lambda>a b. re_ranker_model query b \<le> re_ranker_model query a)
      (take n ?sorted)"
    using sorted_desc_sort_key [of "re_ranker_model query" docs] by (rule sorted_wrt_take)
  moreover have "0 \<le> k \<longrightarrow> int (length (rerank re_ranker_model query docs k)) \<le> k
     \<and> rerank re_ranker_model query docs k = take (nat k) ?sorted"
    by (auto simp: rerank_sort_key py_slice_to_def)
  moreover have "length (rerank re_ranker_model query docs 20) \<le> 20"
    by (simp add: rerank_sort_key py_slice_to_def)
  ultimately show ?thesis
    by (simp only: n) 
qed

theorem rerank_sorted_subset_witness:
  "rerank (\<lambda>q doc. real (length doc)) ''theft'' [''aa'', ''bbbb'', ''c'', ''ddd''] 3
     = [''bbbb'', ''ddd'', ''aa'']
   \<and> rerank (\<lambda>q doc. real (length doc)) ''theft'' [''aa'', ''bbbb'', ''c'', ''ddd''] 20
     = [''bbbb'', ''ddd'', ''aa'', ''c'']"
proof -
  have d: "distinct [''aa'', ''bbbb'', ''c'', ''ddd'']"
    by simp
  have s: "sort_key (\<lambda>doc. - real (length doc)) [''aa'', ''bbbb'', ''c'', ''ddd'']
      = [''bbbb'', ''ddd'', ''aa'', ''c'']"
    by simp
  from rerank_sorted_subset [OF d, of "\<lambda>q doc. real (length doc)" "''theft''" 3]
  have "rerank (\<lambda>q doc. real (length doc)) ''theft'' [''aa'', ''bbbb'', ''c'', ''ddd''] 3
     = take (nat 3) (sort_key (\<lambda>doc. - real (length doc)) [''aa'', ''bbbb'', ''c'', ''ddd''])"
    by simp
  moreover
  from rerank_sorted_subset [OF d, of "\<lambda>q doc. real (length doc)" "''theft''" 20]
  have "rerank (\<lambda>q doc. real (length doc)) ''theft'' [''aa'', ''bbbb'', ''c'', ''ddd''] 20
     = take (nat 20) (sort_key (\<lambda>doc. - real (length doc)) [''aa'', ''bbbb'', ''c'', ''ddd''])"
    by simp
  ultimately show ?thesis
    by (simp only: s) simp
qed

section \<open>The vector candidates\<close>

lemma semantic_matches_acc:
  "semantic_matches metadata indices acc =
     Inr (acc @ map (\<lambda>idx. metadata ! nat idx)
                  (filter (\<lambda>idx. 0 \<le> idx \<and> idx < int (length metadata)) indices))"
  by (induction indices arbitrary: acc) (simp_all add: py_getitem_def)

text \<open>
  Claim C9. For every list of indices that the vector search returns, negative ones and
  ones beyond the metadata included, the loop over the indices raises nothing: it returns
  \<open>metadata[idx]\<close> for the indices in range, in their order, and passes over the others.
\<close>

theorem semantic_matches_skips_out_of_range:
  "semantic_matches metadata indices [] =
     Inr (map (\<lambda>idx. metadata ! nat idx)
            (filter (\<lambda>idx. 0 \<le> idx \<and> idx < int (length metadata)) indices))"
  by (simp add: semantic_matches_acc)

theorem semantic_matches_skips_out_of_range_witness:
  "semantic_matches [''a'', ''b'', ''c''] [2, - 1, 0, 3, 1, - 3] [] = Inr [''c'', ''a'', ''b'']"
  using semantic_matches_skips_out_of_range [of "[''a'', ''b'', ''c'']" "[2, - 1, 0, 3, 1, - 3]"]
  by simp

section \<open>The two paths of the orchestrator\<close>

lemma in_filtered_by_condition:
  "doc \<in> set (filtered_by_condition N structured_ipc_data) \<longleftrightarrow>
     (\<exists>item\<in>set structured_ipc_data.
        original_text item = doc \<and> (\<exists>y. punishment_years item = Some y \<and> N < y))"
  by (auto simp: filtered_by_condition_def split: option.splits)

lemma rerank_20_nonempty: "docs \<noteq> [] \<Longrightarrow> rerank re_ranker_model query docs 20 \<noteq> []"
  by (cases docs) (simp_all add: rerank_sort_key py_slice_to_def)

lemma set_rerank_subset: "set (rerank re_ranker_model query docs k) \<subseteq> set docs"
proof -
  obtain n where "rerank re_ranker_model query docs k
      = take n (sort_key (\<lambda>doc. - re_ranker_model query doc) docs)"
    using py_slice_to_take [of "sort_key (\<lambda>doc. - re_ranker_model query doc) docs" k]
    by (auto simp: rerank_sort_key)
  then show ?thesis
    using set_take_subset [of n "sort_key (\<lambda>doc. - re_ranker_model query doc) docs"]
    by simp
qed

text \<open>
  Claim C1, as the code has it. When the leftmost "greater than " of the query that a
  digit follows (in any letter case) is followed by digits that write the integer \<open>N\<close>,
  in at most 4300 digits, and some record has \<open>punishment_years\<close> not null and greater
  than \<open>N\<close>, the retrieval takes the numeric path: it returns the re-ranked texts of the
  filtered records, a non-empty list in which every text is the \<open>original_text\<close> of a
  record whose \<open>punishment_years\<close> is greater than \<open>N\<close>.
\<close>

theorem numeric_path_result:
  assumes "filter_phrase query digits" and "length digits \<le> 4300"
    and "N = digits_value digits"
    and "\<exists>item\<in>set structured_ipc_data. \<exists>y. punishment_years item = Some y \<and> N < y"
  shows "\<exists>docs.
      retrieve_relevant_ipc_hybrid query structured_ipc_data faiss_index metadata
          embedding_model re_ranker_model k_initial k_final
        = ([Info_numerical_filter N], Inr docs)
      \<and> docs = rerank re_ranker_model query (filtered_by_condition N structured_ipc_data) 20
      \<and> docs \<noteq> []
      \<and> (\<forall>doc\<in>set docs. \<exists>item\<in>set structured_ipc_data.
            original_text item = doc \<and> (\<exists>y. punishment_years item = Some y \<and> N < y))"
proof -
  let ?filtered = "filtered_by_condition N structured_ipc_data"
  let ?docs = "rerank re_ranker_model query ?filtered 20"
  from assms(1-3) have nf: "numeric_filter query = Inr (Some N)"
    by (simp add: numeric_filter_phrase)
  from assms(4) obtain item y where "item \<in> set structured_ipc_data"
    and "punishment_years item = Some y" and "N < y"
    by blast
  then have "original_text item \<in> set ?filtered"
    by (auto simp: in_filtered_by_condition)
  then have ne: "?filtered \<noteq> []"
    by auto
  have ret: "retrieve_relevant_ipc_hybrid query structured_ipc_data faiss_index metadata
          embedding_model re_ranker_model k_initial k_final
        = ([Info_numerical_filter N], Inr ?docs)"
    using nf ne by (simp add: retrieve_relevant_ipc_hybrid_def)
  have nonempty: "?docs \<noteq> []"
    using ne by (rule rerank_20_nonempty)
  have "\<exists>item\<in>set structured_ipc_data.
          original_text item = doc \<and> (\<exists>y. punishment_years item = Some y \<and> N < y)"
    if "doc \<in> set ?docs" for doc
  proof -
    from that set_rerank_subset [of re_ranker_model query ?filtered 20]
    have "doc \<in> set ?filtered" by (rule subsetD [rotated])
    then show ?thesis by (simp only: in_filtered_by_condition)
  qed
  then have all: "\<forall>doc\<in>set ?docs. \<exists>item\<in>set structured_ipc_data.
          original_text item = doc \<and> (\<exists>y. punishment_years item = Some y \<and> N < y)"
    by (rule ballI)
  show ?thesis
    by (rule exI [of _ ?docs]) (intro conjI ret refl nonempty all)
qed

theorem numeric_path_result_witness:
  "retrieve_relevant_ipc_hybrid ''sections with punishment greater than 5 years''
     [\<lparr>ipc_section_id = ''IPC 379'', description_summary = ''Theft.'',
        punishment_years = Some 3, original_text = ''IPC 379: Theft. Punishment: 3 years''\<rparr>,
      \<lparr>ipc_section_id = ''IPC 392'', description_summary = ''Robbery.'',
        punishment_years = Some 10, original_text = ''IPC 392: Robbery. Punishment: 10 years''\<rparr>,
      \<lparr>ipc_section_id = ''IPC 441'', description_summary = ''IPC 441: Criminal trespass.'',
        punishment_years = None, original_text = ''IPC 441: Criminal trespass.''\<rparr>]
     (\<lambda>(v::nat) k. [0, 1, 2])
     [''IPC 379: Theft. Punishment: 3 years'', ''IPC 392: Robbery. Punishment: 10 years'',
      ''IPC 441: Criminal trespass.'']
     (\<lambda>q. 0) (\<lambda>q doc. 0) 20 15
   = ([Info_numerical_filter 5], Inr [''IPC 392: Robbery. Punishment: 10 years''])"
proof -
  let ?data = "[\<lparr>ipc_section_id = ''IPC 379'', description_summary = ''Theft.'',
        punishment_years = Some 3, original_text = ''IPC 379: Theft. Punishment: 3 years''\<rparr>,
      \<lparr>ipc_section_id = ''IPC 392'', description_summary = ''Robbery.'',
        punishment_years = Some 10, original_text = ''IPC 392: Robbery. Punishment: 10 years''\<rparr>,
      \<lparr>ipc_section_id = ''IPC 441'', description_summary = ''IPC 441: Criminal trespass.'',
        punishment_years = None, original_text = ''IPC 441: Criminal trespass.''\<rparr>]"
  have "search_greater_than ''sections with punishment greater than 5 years'' = Some ''5''"
    by code_simp
  then have p: "filter_phrase ''sections with punishment greater than 5 years'' ''5''"
    by (simp only: filter_phrase_search)
  have l: "length ''5'' \<le> 4300"
    by simp
  have v: "(5::int) = digits_value ''5''"
    by code_simp
  have e: "\<exists>item\<in>set ?data. \<exists>y. punishment_years item = Some y \<and> 5 < y"
    by simp
  have f: "filtered_by_condition 5 ?data = [''IPC 392: Robbery. Punishment: 10 years'']"
    by (simp add: filtered_by_condition_def)
  have r: "rerank (\<lambda>q doc. 0) ''sections with punishment greater than 5 years''
             [''IPC 392: Robbery. Punishment: 10 years''] 20
           = [''IPC 392: Robbery. Punishment: 10 years'']"
    by (simp add: rerank_def predict_def py_slice_to_def)
  from numeric_path_result [OF p l v e, of "\<lambda>(v::nat) k. [0, 1, 2]"
      "[''IPC 379: Theft. Punishment: 3 years'', ''IPC 392: Robbery. Punishment: 10 years'',
      ''IPC 441: Criminal trespass.'']" "\<lambda>q. 0" "\<lambda>q doc. 0" 20 15]
  show ?thesis
    unfolding f r by blast
qed

text \<open>
  The claim as stated takes \<open>N\<close> from any "greater than N years" of the query. The source
  reads the leftmost "greater than" that digits follow, with or without a year unit: in
  the query below it reads 100, no record is above 100, and the retrieval falls back to
  the hybrid path, though the query holds "greater than 5 years" and the record has 7
  years.
\<close>

theorem earlier_phrase_sets_the_threshold:
  "retrieve_relevant_ipc_hybrid
     ''fine greater than 100 rupees and imprisonment greater than 5 years''
     [\<lparr>ipc_section_id = ''IPC 379'', description_summary = ''Theft.'',
        punishment_years = Some 7, original_text = ''IPC 379: Theft. Punishment: 7 years''\<rparr>]
     upto [] (of_nat \<circ> length) (curry (of_nat \<circ> length \<circ> snd)) 20 15
   = ([Info_numerical_filter 100, Warning_no_matching_sections], Inr [])
   \<and> sublist ''greater than 5 years''
        ''fine greater than 100 rupees and imprisonment greater than 5 years''"
  by code_simp

text \<open>
  Claim C2. When the filter phrase is detected with the integer \<open>N\<close> and no record has
  \<open>punishment_years\<close> not null and greater than \<open>N\<close>, the retrieval does not return an
  empty list at once: after the advisory it returns what the hybrid path returns for the
  query.
\<close>

theorem empty_filter_falls_back:
  assumes "numeric_filter query = Inr (Some N)"
    and "\<forall>item\<in>set structured_ipc_data. \<forall>y. punishment_years item = Some y \<longrightarrow> \<not> N < y"
  shows "retrieve_relevant_ipc_hybrid query structured_ipc_data faiss_index metadata
           embedding_model re_ranker_model k_initial k_final
         = ([Info_numerical_filter N, Warning_no_matching_sections],
            hybrid_path query structured_ipc_data faiss_index metadata
              embedding_model re_ranker_model k_initial k_final)"
proof -
  have "doc \<notin> set (filtered_by_condition N structured_ipc_data)" for doc
    using assms(2) by (auto simp: in_filtered_by_condition)
  then have "filtered_by_condition N structured_ipc_data = []"
    by (cases "filtered_by_condition N structured_ipc_data") auto
  with assms(1) show ?thesis
    by (simp add: retrieve_relevant_ipc_hybrid_def)
qed

theorem empty_filter_falls_back_witness:
  "retrieve_relevant_ipc_hybrid ''offences against a minor, greater than 50 years''
     [\<lparr>ipc_section_id = ''IPC 379'', description_summary = ''Theft.'',
        punishment_years = Some 3, original_text = ''IPC 379: Theft. Punishment: 3 years''\<rparr>,
      \<lparr>ipc_section_id = ''IPC 363'', description_summary = ''Kidnapping a child.'',
        punishment_years = Some 7,
        original_text = ''IPC 363: Kidnapping a child. Punishment: 7 years''\<rparr>]
     (\<lambda>(v::nat) k. [0, - 1])
     [''IPC 379: Theft. Punishment: 3 years'',
      ''IPC 363: Kidnapping a child. Punishment: 7 years'']
     (\<lambda>q. 0) (\<lambda>q doc. real (length doc)) 20 15
   = ([Info_numerical_filter 50, Warning_no_matching_sections],
      Inr [''IPC 363: Kidnapping a child. Punishment: 7 years'',
           ''IPC 379: Theft. Punishment: 3 years''])"
proof -
  let ?q = "''offences against a minor, greater than 50 years''"
  let ?data = "[\<lparr>ipc_section_id = ''IPC 379'', description_summary = ''Theft.'',
        punishment_years = Some 3, original_text = ''IPC 379: Theft. Punishment: 3 years''\<rparr>,
      \<lparr>ipc_section_id = ''IPC 363'', description_summary = ''Kidnapping a child.'',
        punishment_years = Some 7,
        original_text = ''IPC 363: Kidnapping a child. Punishment: 7 years''\<rparr>]"
  let ?md = "[''IPC 379: Theft. Punishment: 3 years'',
      ''IPC 363: Kidnapping a child. Punishment: 7 years'']"
  have n: "numeric_filter ?q = Inr (Some 50)"
    by code_simp
  have a: "\<forall>item\<in>set ?data. \<forall>y. punishment_years item = Some y \<longrightarrow> \<not> 50 < y"
    by simp
  have ql: "mentions_child (py_lower ?q)"
    by code_simp
  have k: "keyword_matches (py_lower ?q) ?data
             = [''IPC 363: Kidnapping a child. Punishment: 7 years'']"
    unfolding keyword_matches_def using ql
    by (simp, code_simp)
  have x: "retrieved_sections ?q ?md = []"
    by code_simp
  have s: "semantic_matches ?md [0, - 1] [] = Inr [''IPC 379: Theft. Punishment: 3 years'']"
    by (simp add: py_getitem_def)
  have c: "combine_results [''IPC 363: Kidnapping a child. Punishment: 7 years'',
              ''IPC 379: Theft. Punishment: 3 years''] [] {}
           = [''IPC 363: Kidnapping a child. Punishment: 7 years'',
              ''IPC 379: Theft. Punishment: 3 years'']"
    by code_simp
  have r: "rerank (\<lambda>q doc. real (length doc)) ?q
             [''IPC 363: Kidnapping a child. Punishment: 7 years'',
              ''IPC 379: Theft. Punishment: 3 years''] 15
           = [''IPC 363: Kidnapping a child. Punishment: 7 years'',
              ''IPC 379: Theft. Punishment: 3 years'']"
    by code_simp
  have h: "hybrid_path ?q ?data (\<lambda>(v::nat) k. [0, - 1]) ?md (\<lambda>q. 0)
             (\<lambda>q doc. real (length doc)) 20 15
           = Inr [''IPC 363: Kidnapping a child. Punishment: 7 years'',
                  ''IPC 379: Theft. Punishment: 3 years'']"
    unfolding hybrid_path_def Let_def k x s by (simp only: sum.case append.simps c r list.simps if_False)
  from empty_filter_falls_back [OF n a, of "\<lambda>(v::nat) k. [0, - 1]" ?md "\<lambda>q. 0"
      "\<lambda>q doc. real (length doc)" 20 15]
  show ?thesis
    unfolding h .
qed

text \<open>
  Claim C10. The returned list holds no text twice. The numeric path breaks this on a
  corpus in which two records have the same text, as a file with a repeated line gives:
  the filtered texts are re-ranked as they are, while the hybrid path removes repeated
  texts before it re-ranks.
\<close>

theorem numeric_path_repeats_duplicate_records:
  "structure_text ''IPC 302: Murder. Punishment: death or 10 years''
     = Inr (Some \<lparr>ipc_section_id = ''IPC 302'', description_summary = ''Murder.'',
                   punishment_years = Some 10,
                   original_text = ''IPC 302: Murder. Punishment: death or 10 years''\<rparr>)
   \<and> retrieve_relevant_ipc_hybrid ''punishment greater than 5 years''
       [\<lparr>ipc_section_id = ''IPC 302'', description_summary = ''Murder.'',
          punishment_years = Some 10,
          original_text = ''IPC 302: Murder. Punishment: death or 10 years''\<rparr>,
        \<lparr>ipc_section_id = ''IPC 302'', description_summary = ''Murder.'',
          punishment_years = Some 10,
          original_text = ''IPC 302: Murder. Punishment: death or 10 years''\<rparr>]
       faiss_index metadata embedding_model re_ranker_model k_initial k_final
     = ([Info_numerical_filter 5],
        Inr [''IPC 302: Murder. Punishment: death or 10 years'',
             ''IPC 302: Murder. Punishment: death or 10 years''])"
proof (rule conjI)
  show "structure_text ''IPC 302: Murder. Punishment: death or 10 years''
     = Inr (Some \<lparr>ipc_section_id = ''IPC 302'', description_summary = ''Murder.'',
                   punishment_years = Some 10,
                   original_text = ''IPC 302: Murder. Punishment: death or 10 years''\<rparr>)"
    by code_simp
  have n: "numeric_filter ''punishment greater than 5 years'' = Inr (Some 5)"
    by code_simp
  show "retrieve_relevant_ipc_hybrid ''punishment greater than 5 years''
       [\<lparr>ipc_section_id = ''IPC 302'', description_summary = ''Murder.'',
          punishment_years = Some 10,
          original_text = ''IPC 302: Murder. Punishment: death or 10 years''\<rparr>,
        \<lparr>ipc_section_id = ''IPC 302'', description_summary = ''Murder.'',
          punishment_years = Some 10,
          original_text = ''IPC 302: Murder. Punishment: death or 10 years''\<rparr>]
       faiss_index metadata embedding_model re_ranker_model k_initial k_final
     = ([Info_numerical_filter 5],
        Inr [''IPC 302: Murder. Punishment: death or 10 years'',
             ''IPC 302: Murder. Punishment: death or 10 years''])"
    by (simp add: retrieve_relevant_ipc_hybrid_def n filtered_by_condition_def
          rerank_sort_key py_slice_to_def)
qed

section \<open>The summary of a record\<close>

lemma py_in_set: "py_in sep s \<Longrightarrow> set sep \<subseteq> set s"
proof (induction s)
  case Nil
  then show ?case by simp
next
  case (Cons c cs)
  show ?case
  proof (cases "py_startswith (c # cs) sep")
    case True
    then have "set sep = set (take (length sep) (c # cs))"
      by (simp only: py_startswith_def)
    then show ?thesis
      using set_take_subset [of "length sep" "c # cs"] by simp
  next
    case False
    with Cons show ?thesis by auto
  qed
qed

lemma partition_at_None: "\<not> py_in sep s \<Longrightarrow> partition_at sep s = None"
  by (induction s) auto

lemma partition_at_char:
  "d \<in> set s \<Longrightarrow> \<exists>before after. partition_at [d] s = Some (before, after)"
  by (induction s) (auto simp: py_startswith_def)

lemma partition_at_first_char:
  "d \<notin> set label \<Longrightarrow> partition_at [d] (label @ d # rest) = Some (label, rest)"
  by (induction label) (auto simp: py_startswith_def)

lemma py_in_middle: "py_in sep (before @ sep @ after)"
proof (induction before)
  case Nil
  have st: "py_startswith (sep @ after) sep"
    by (simp add: py_startswith_def)
  show ?case
  proof (cases "sep @ after")
    case Nil
    then show ?thesis by simp
  next
    case (Cons a l)
    with st have "py_startswith (a # l) sep"
      by simp
    with Cons show ?thesis by simp
  qed
next
  case (Cons c before)
  then show ?case by simp
qed

lemma partition_at_first_occurrence:
  assumes "sep \<noteq> []" and "hd sep \<notin> set (tl sep)" and "\<not> py_in sep body"
  shows "partition_at sep (body @ sep @ rest) = Some (body, rest)"
  using assms(3)
proof (induction body)
  case Nil
  from assms(1) show ?case
    by (cases sep) (auto simp: py_startswith_def)
next
  case (Cons c body)
  then have no: "\<not> py_startswith (c # body) sep" and rec: "\<not> py_in sep body"
    by auto
  have "\<not> py_startswith (c # body @ sep @ rest) sep"
  proof
    assume "py_startswith (c # body @ sep @ rest) sep"
    then have eq: "take (length sep) ((c # body) @ sep @ rest) = sep"
      by (simp add: py_startswith_def)
    show False
    proof (cases "length sep \<le> length (c # body)")
      case True
      with eq have "take (length sep) (c # body) = sep"
        by (simp only: take_append) simp
      with no show False
        by (simp add: py_startswith_def)
    next
      case False
      then have k: "length (c # body) < length sep"
        by simp
      then have "sep ! length (c # body) = ((c # body) @ sep @ rest) ! length (c # body)"
        by (subst eq [symmetric]) simp
      also have "\<dots> = hd sep"
        using assms(1) by (simp only: nth_append_length_plus [of _ _ 0, simplified]) (simp add: hd_append hd_conv_nth nth_append)
      finally have "hd sep = sep ! length (c # body)"
        by simp
      moreover have "sep ! length (c # body) \<in> set (tl sep)"
        using k by (cases sep) (auto simp: nth_Cons')
      ultimately show False
        using assms(2) by simp
    qed
  qed
  with Cons.IH [OF rec] show ?case
    by simp
qed


lemma summary_text_no_punishment:
  "\<not> py_in ''Punishment:'' text_content \<Longrightarrow> summary_text text_content = Inr text_content"
  by (simp add: summary_text_def)

lemma summary_text_labelled:
  assumes "CHR '':'' \<notin> set label" and "\<not> py_in ''Punishment:'' body"
  shows "summary_text (label @ '':'' @ body @ ''Punishment:'' @ rest) = Inr (py_strip body)"
proof -
  have "py_in ''Punishment:'' ((label @ '':'' @ body) @ ''Punishment:'' @ rest)"
    by (rule py_in_middle)
  then have a: "py_in ''Punishment:'' (label @ '':'' @ body @ ''Punishment:'' @ rest)"
    by simp
  have b: "partition_at '':'' (label @ '':'' @ body @ ''Punishment:'' @ rest)
      = Some (label, body @ ''Punishment:'' @ rest)"
    using partition_at_first_char [OF assms(1), of "body @ ''Punishment:'' @ rest"] by simp
  have c: "partition_at ''Punishment:'' (body @ ''Punishment:'' @ rest) = Some (body, rest)"
    by (rule partition_at_first_occurrence [OF _ _ assms(2)]) simp_all
  have s1: "py_split1 (label @ '':'' @ body @ ''Punishment:'' @ rest) '':''
      = [label, body @ ''Punishment:'' @ rest]"
    by (simp only: py_split1_def b option.case prod.case)
  have g1: "py_getitem [label, body @ ''Punishment:'' @ rest] 1
      = Inr (body @ ''Punishment:'' @ rest)"
    by (simp add: py_getitem_def)
  have s2: "py_split1 (body @ ''Punishment:'' @ rest) ''Punishment:'' = [body, rest]"
    by (simp only: py_split1_def c option.case prod.case)
  have g2: "py_getitem [body, rest] 0 = Inr body"
    by (simp add: py_getitem_def)
  show ?thesis
    by (simp only: summary_text_def a if_True s1 g1 sum.case s2 g2)
qed

lemma summary_text_total: "\<exists>summary. summary_text text_content = Inr summary"
proof (cases "py_in ''Punishment:'' text_content")
  case False
  then show ?thesis by (simp add: summary_text_def)
next
  case True
  then have "CHR '':'' \<in> set text_content"
    using py_in_set by fastforce
  then obtain before after where "partition_at '':'' text_content = Some (before, after)"
    using partition_at_char by blast
  with True show ?thesis
    by (auto simp: summary_text_def py_split1_def py_getitem_def split: option.splits)
qed

lemma structure_text_Some:
  assumes "structure_text text_content = Inr (Some r)"
  shows "summary_text text_content = Inr (description_summary r)
    \<and> original_text r = text_content
    \<and> \<not> (py_in ''nan'' (py_lower text_content) \<or> length text_content < 20)
    \<and> (\<exists>clause. parse_punishment_years text_content = Inr (punishment_years r, clause))"
  using assms
  by (auto simp: structure_text_def Let_def split: if_splits sum.splits prod.splits)

lemma structure_text_raises:
  assumes "structure_text text_content = Inl e"
  shows "parse_punishment_years text_content = Inl e
    \<and> \<not> (py_in ''nan'' (py_lower text_content) \<or> length text_content < 20)"
proof -
  obtain summary where "summary_text text_content = Inr summary"
    using summary_text_total by blast
  with assms show ?thesis
    by (auto simp: structure_text_def Let_def split: if_splits sum.splits prod.splits)
qed

lemma structure_text_kept:
  assumes "\<not> (py_in ''nan'' (py_lower text_content) \<or> length text_content < 20)"
    and "parse_punishment_years text_content = Inr (years, clause)"
  shows "\<exists>r. structure_text text_content = Inr (Some r) \<and> original_text r = text_content
     \<and> punishment_years r = years"
proof -
  obtain summary where "summary_text text_content = Inr summary"
    using summary_text_total by blast
  with assms show ?thesis
    by (simp add: structure_text_def Let_def)
qed

text \<open>
  Claim C7, as the code has it. For every loaded record: when the raw text does not
  contain "Punishment:" (in this very spelling), the summary is the raw text unchanged,
  its leading label included; when the raw text is a label without a colon, a colon, a
  body without "Punishment:", and then "Punishment:" with what follows, the summary is
  the body without its outer white space.
\<close>

theorem summary_of_loaded_record:
  assumes "structure_text text_content = Inr (Some r)"
  shows "(\<not> py_in ''Punishment:'' text_content \<longrightarrow> description_summary r = text_content)
    \<and> (\<forall>label body rest.
          text_content = label @ '':'' @ body @ ''Punishment:'' @ rest
          \<and> CHR '':'' \<notin> set label \<and> \<not> py_in ''Punishment:'' body
          \<longrightarrow> description_summary r = py_strip body)"
proof -
  from assms have s: "summary_text text_content = Inr (description_summary r)"
    by (simp add: structure_text_Some)
  show ?thesis
  proof (intro conjI allI impI)
    assume "\<not> py_in ''Punishment:'' text_content"
    with s show "description_summary r = text_content"
      by (simp add: summary_text_no_punishment)
  next
    fix label body rest
    assume "text_content = label @ '':'' @ body @ ''Punishment:'' @ rest
          \<and> CHR '':'' \<notin> set label \<and> \<not> py_in ''Punishment:'' body"
    with s summary_text_labelled [of label body rest]
    show "description_summary r = py_strip body"
      by simp
  qed
qed

theorem summary_of_loaded_record_witness:
  "structure_text ''IPC 379: Theft.  Punishment: 3 years''
     = Inr (Some \<lparr>ipc_section_id = ''IPC 379'', description_summary = ''Theft.'',
                   punishment_years = Some 3,
                   original_text = ''IPC 379: Theft.  Punishment: 3 years''\<rparr>)
   \<and> description_summary \<lparr>ipc_section_id = ''IPC 379'', description_summary = ''Theft.'',
                   punishment_years = Some 3,
                   original_text = ''IPC 379: Theft.  Punishment: 3 years''\<rparr>
       = py_strip '' Theft.  ''"
proof -
  let ?r = "\<lparr>ipc_section_id = ''IPC 379'', description_summary = ''Theft.'',
                   punishment_years = Some 3,
                   original_text = ''IPC 379: Theft.  Punishment: 3 years''\<rparr>"
  have s: "structure_text ''IPC 379: Theft.  Punishment: 3 years'' = Inr (Some ?r)"
    by code_simp
  have d: "''IPC 379: Theft.  Punishment: 3 years''
      = ''IPC 379'' @ '':'' @ '' Theft.  '' @ ''Punishment:'' @ '' 3 years''
      \<and> CHR '':'' \<notin> set ''IPC 379'' \<and> \<not> py_in ''Punishment:'' '' Theft.  ''"
    by code_simp
  from summary_of_loaded_record [OF s] d
  have "description_summary ?r = py_strip '' Theft.  ''"
    by blast
  with s show ?thesis
    by (rule conjI)
qed

text \<open>
  The claim as stated has the label stripped also when there is no "Punishment:" clause.
  The source takes the whole text in that case.
\<close>

theorem summary_keeps_label_without_punishment:
  "structure_text ''IPC 378: Theft of movable property''
     = Inr (Some \<lparr>ipc_section_id = ''IPC 378'',
                   description_summary = ''IPC 378: Theft of movable property'',
                   punishment_years = None,
                   original_text = ''IPC 378: Theft of movable property''\<rparr>)
   \<and> ''IPC 378: Theft of movable property'' \<noteq> ''Theft of movable property''"
  by code_simp

section \<open>The loader\<close>

lemma sublist_py_strip: "sublist (py_strip s) s"
proof -
  have "suffix (dropWhile is_space s) s"
    by (rule suffix_dropWhile)
  moreover have "prefix (rev (dropWhile is_space (rev (dropWhile is_space s)))) (dropWhile is_space s)"
    by (metis suffix_dropWhile suffix_to_prefix rev_rev_ident)
  ultimately show ?thesis
    unfolding py_strip_def
    by (metis prefix_imp_sublist suffix_imp_sublist sublist_order.order.trans)
qed

lemma ranges_of_digits:
  assumes "ranges_of s rs" and "n \<in> set (range_strings rs)"
  shows "sublist n s \<and> list_all is_digit n"
  using assms
proof (induction rule: ranges_of.induct)
  case (no_range s)
  then show ?case by (simp add: range_strings_def)
next
  case (next_range pre t a b r rs)
  from next_range.hyps(2) obtain ws1 sep ws2 ws3 u where
    t: "t = a @ ws1 @ sep @ ws2 @ b @ ws3 @ u @ r"
    and d: "list_all is_digit a" "list_all is_digit b"
    by (auto simp: range_phrase_def)
  from next_range.prems have "n = a \<or> n = b \<or> n \<in> set (range_strings rs)"
    by (auto simp: range_strings_def)
  then show ?case
  proof (elim disjE)
    assume "n = a"
    moreover have "sublist a (pre @ a @ (ws1 @ sep @ ws2 @ b @ ws3 @ u @ r))"
      by (rule sublist_appendI)
    ultimately show ?thesis using t d by simp
  next
    assume "n = b"
    moreover have "sublist b ((pre @ a @ ws1 @ sep @ ws2) @ b @ (ws3 @ u @ r))"
      by (rule sublist_appendI)
    ultimately show ?thesis using t d by simp
  next
    assume "n \<in> set (range_strings rs)"
    with next_range.IH have n: "sublist n r" "list_all is_digit n"
      by simp_all
    have "sublist r ((pre @ a @ ws1 @ sep @ ws2 @ b @ ws3 @ u) @ r @ [])"
      by (rule sublist_appendI)
    with n(1) have "sublist n (pre @ t)"
      using t by (metis append.assoc append_Nil2 sublist_order.order.trans)
    with n(2) show ?thesis by simp
  qed
qed

lemma findall_years_digits:
  assumes "findall_years s = a # ms"
  shows "sublist a s \<and> list_all is_digit a"
proof -
  from assms have "\<not> (\<forall>i < length s. \<not> has_years (drop i s))"
    using findall_years_none [of s] by simp
  then have "\<exists>i < length s. has_years (drop i s)"
    by blast
  then obtain pre t where s: "s = pre @ t" and l: "leftmost pre t has_years"
    using leftmost_exists [of s has_years] by blast
  from l have "has_years t"
    by (simp add: leftmost_def)
  then obtain a' r where p: "years_phrase t a' r"
    by (auto simp: has_years_def)
  from findall_years_first [OF l p] assms s have "a' = a"
    by simp
  with p obtain ws u where t: "t = a @ ws @ u @ r" and d: "list_all is_digit a"
    by (auto simp: years_phrase_def)
  have "sublist a (pre @ a @ (ws @ u @ r))"
    by (rule sublist_appendI)
  with s t d show ?thesis by simp
qed

lemma punishment_clause_sublist:
  assumes "punishment_clause t line"
  shows "sublist line t"
proof -
  from assms obtain pre kw ws rest where "t = pre @ kw @ ws @ line @ rest"
    by (auto simp: punishment_clause_def)
  then have "t = (pre @ kw @ ws) @ line @ rest"
    by simp
  then show ?thesis
    by (simp only: sublist_appendI)
qed

lemma parse_punishment_years_raises:
  assumes "parse_punishment_years t = Inl e"
  shows "e = ValueError \<and> long_number t"
proof -
  from assms obtain line where sp: "search_punishment t = Some line"
    using parse_no_clause [of t] by (cases "search_punishment t") auto
  then have "sublist line t"
    by (simp add: punishment_clause_sublist punishment_clause_search)
  with sublist_py_strip [of line] have sub: "sublist (py_strip line) t"
    by (rule sublist_order.order.trans)
  show ?thesis
  proof (cases "findall_year_ranges (py_strip line) = []")
    case False
    from parse_ranges [OF sp refl False] assms
    obtain n where n: "n \<in> set (range_strings (findall_year_ranges (py_strip line)))"
      and len: "\<not> length n \<le> 4300" and e: "e = ValueError"
      by (auto split: if_splits)
    from ranges_of_digits [OF findall_ranges_of n]
    have "sublist n (py_strip line)" "list_all is_digit n"
      by simp_all
    with sub len have "long_number t"
      unfolding long_number_def
      by (intro exI [of _ n]) (auto intro: sublist_order.order.trans)
    with e show ?thesis by simp
  next
    case True
    show ?thesis
    proof (cases "findall_years (py_strip line)")
      case Nil
      from parse_words [OF sp True Nil] assms show ?thesis by simp
    next
      case (Cons a ms)
      from parse_years [OF sp True Cons] assms
      have len: "\<not> length a \<le> 4300" and e: "e = ValueError"
        by (auto split: if_splits)
      from findall_years_digits [OF Cons]
      have "sublist a (py_strip line)" "list_all is_digit a"
        by simp_all
      with sub len have "long_number t"
        unfolding long_number_def
        by (intro exI [of _ a]) (auto intro: sublist_order.order.trans)
      with e show ?thesis by simp
    qed
  qed
qed

lemma structure_text_skipped: "skipped_text t \<Longrightarrow> structure_text t = Inr None"
  by (simp add: structure_text_def skipped_text_def)

lemma structure_text_failing:
  assumes "failing_text t"
  shows "structure_text t = Inl ValueError"
proof -
  from assms obtain e where "parse_punishment_years t = Inl e"
    by (auto simp: failing_text_def isl_def)
  moreover from this have "e = ValueError"
    by (simp add: parse_punishment_years_raises)
  ultimately show ?thesis
    using assms by (simp add: structure_text_def failing_text_def skipped_text_def)
qed

lemma structure_text_loaded:
  assumes "loaded_text t"
  shows "\<exists>r. structure_text t = Inr (Some r) \<and> original_text r = t"
proof -
  from assms obtain years clause where "parse_punishment_years t = Inr (years, clause)"
    by (cases "parse_punishment_years t") (auto simp: loaded_text_def)
  with assms structure_text_kept [of t years clause] show ?thesis
    by (auto simp: loaded_text_def skipped_text_def)
qed

lemma text_cases:
  obtains "skipped_text t" "\<not> failing_text t" "\<not> loaded_text t"
  | "failing_text t" "\<not> skipped_text t" "\<not> loaded_text t"
  | "loaded_text t" "\<not> skipped_text t" "\<not> failing_text t"
  by (auto simp: failing_text_def loaded_text_def)

lemma load_line_no_text:
  assumes "line_text json_loads line = None"
  shows "\<exists>w. line_warning json_loads line = Some w
           \<and> load_line json_loads st line = st\<lparr>logged := logged st @ [w]\<rparr>"
  using assms
  by (auto simp: line_text_def line_warning_def load_line_def structure_entry_def
        entry_get_text_def handler_def split: sum.splits option.splits json.splits)

lemma load_line_text:
  assumes "line_text json_loads line = Some t"
  shows "line_warning json_loads line
           = (if failing_text t then Some (Warning_error_parsing ValueError) else None)
    \<and> load_line json_loads st line =
        (case structure_text t of
           Inl e \<Rightarrow> st\<lparr>logged := logged st @ [handler line e]\<rparr>
         | Inr None \<Rightarrow> st\<lparr>skipped_count := skipped_count st + 1\<rparr>
         | Inr (Some r) \<Rightarrow> st\<lparr>structured_data := structured_data st @ [r]\<rparr>)"
  using assms
  by (auto simp: line_text_def line_warning_def load_line_def structure_entry_def
        entry_get_text_def split: sum.splits option.splits json.splits)

lemma load_lines:
  "\<exists>recs.
     foldl (load_line json_loads) st lines =
       \<lparr>structured_data = structured_data st @ recs,
        skipped_count = skipped_count st
          + length (filter skipped_text (entry_texts json_loads lines)),
        logged = logged st @ List.map_filter (line_warning json_loads) lines\<rparr>
     \<and> map (\<lambda>r. Inr (Some r)) recs
         = map structure_text (filter loaded_text (entry_texts json_loads lines))
     \<and> map original_text recs = filter loaded_text (entry_texts json_loads lines)"
proof (induction lines arbitrary: st)
  case Nil
  show ?case
    by (simp add: entry_texts_def map_filter_simps)
next
  case (Cons line lines)
  let ?P = "\<lambda>st0 ls recs. foldl (load_line json_loads) st0 ls =
       \<lparr>structured_data = structured_data st0 @ recs,
        skipped_count = skipped_count st0
          + length (filter skipped_text (entry_texts json_loads ls)),
        logged = logged st0 @ List.map_filter (line_warning json_loads) ls\<rparr>
     \<and> map (\<lambda>r. Inr (Some r)) recs
         = map structure_text (filter loaded_text (entry_texts json_loads ls))
     \<and> map original_text recs = filter loaded_text (entry_texts json_loads ls)"
  show ?case
  proof (cases "line_text json_loads line")
    case None
    then obtain w where w: "line_warning json_loads line = Some w"
      and step: "load_line json_loads st line = st\<lparr>logged := logged st @ [w]\<rparr>"
      using load_line_no_text by blast
    from Cons.IH [of "st\<lparr>logged := logged st @ [w]\<rparr>"]
    obtain recs where "?P (st\<lparr>logged := logged st @ [w]\<rparr>) lines recs"
      by blast
    with None w step have "?P st (line # lines) recs"
      by (simp add: entry_texts_def map_filter_simps)
    then show ?thesis by blast
  next
    case (Some t)
    then have w: "line_warning json_loads line
           = (if failing_text t then Some (Warning_error_parsing ValueError) else None)"
      and step: "load_line json_loads st line =
        (case structure_text t of
           Inl e \<Rightarrow> st\<lparr>logged := logged st @ [handler line e]\<rparr>
         | Inr None \<Rightarrow> st\<lparr>skipped_count := skipped_count st + 1\<rparr>
         | Inr (Some r) \<Rightarrow> st\<lparr>structured_data := structured_data st @ [r]\<rparr>)"
      using load_line_text [of json_loads line t st] by simp_all
    show ?thesis
    proof (cases t rule: text_cases)
      case 1
      with step have step': "load_line json_loads st line
          = st\<lparr>skipped_count := skipped_count st + 1\<rparr>"
        by (simp add: structure_text_skipped)
      from Cons.IH [of "st\<lparr>skipped_count := skipped_count st + 1\<rparr>"]
      obtain recs where "?P (st\<lparr>skipped_count := skipped_count st + 1\<rparr>) lines recs"
        by blast
      with Some w step' 1 have "?P st (line # lines) recs"
        by (simp add: entry_texts_def map_filter_simps)
      then show ?thesis by blast
    next
      case 2
      with step have step': "load_line json_loads st line
          = st\<lparr>logged := logged st @ [Warning_error_parsing ValueError]\<rparr>"
        by (simp add: structure_text_failing handler_def)
      from Cons.IH [of "st\<lparr>logged := logged st @ [Warning_error_parsing ValueError]\<rparr>"]
      obtain recs where
        "?P (st\<lparr>logged := logged st @ [Warning_error_parsing ValueError]\<rparr>) lines recs"
        by blast
      with Some w step' 2 have "?P st (line # lines) recs"
        by (simp add: entry_texts_def map_filter_simps)
      then show ?thesis by blast
    next
      case 3
      then obtain r where r: "structure_text t = Inr (Some r)" and o: "original_text r = t"
        using structure_text_loaded by blast
      with step have step': "load_line json_loads st line
          = st\<lparr>structured_data := structured_data st @ [r]\<rparr>"
        by simp
      from Cons.IH [of "st\<lparr>structured_data := structured_data st @ [r]\<rparr>"]
      obtain recs where "?P (st\<lparr>structured_data := structured_data st @ [r]\<rparr>) lines recs"
        by blast
      with Some w step' 3 r o have "?P st (line # lines) (r # recs)"
        by (simp add: entry_texts_def map_filter_simps)
      then show ?thesis by blast
    qed
  qed
qed

lemma load_lines_start:
  "\<exists>recs.
     foldl (load_line json_loads)
         \<lparr>structured_data = [], skipped_count = 0, logged = []\<rparr> lines =
       \<lparr>structured_data = recs,
        skipped_count = length (filter skipped_text (entry_texts json_loads lines)),
        logged = List.map_filter (line_warning json_loads) lines\<rparr>
     \<and> map (\<lambda>r. Inr (Some r)) recs
         = map structure_text (filter loaded_text (entry_texts json_loads lines))
     \<and> map original_text recs = filter loaded_text (entry_texts json_loads lines)"
  using load_lines [of json_loads "\<lparr>structured_data = [], skipped_count = 0, logged = []\<rparr>" lines]
  by simp

lemma py_in_replicate:
  "a \<noteq> c \<Longrightarrow> py_in (a # n) (replicate k c @ s) = py_in (a # n) s"
  by (induction k) (simp_all add: py_startswith_def)

lemma long_number_not_skipped:
  assumes "2 \<le> k"
  shows "\<not> skipped_text (''Punishment: '' @ replicate k CHR ''9'' @ '' years'')"
proof -
  have l: "lower_char CHR ''9'' = CHR ''9''"
    by code_simp
  have p: "py_lower ''Punishment: '' = ''punishment: ''"
    by code_simp
  have q: "py_lower '' years'' = '' years''"
    by code_simp
  have r: "py_lower (replicate k CHR ''9'') = replicate k CHR ''9''"
    by (simp add: py_lower_def l)
  have a: "py_lower (x @ y) = py_lower x @ py_lower y" for x y
    by (simp add: py_lower_def)
  have lo: "py_lower (''Punishment: '' @ replicate k CHR ''9'' @ '' years'')
      = ''punishment: '' @ replicate k CHR ''9'' @ '' years''"
    by (simp only: a p q r)
  have ni: "\<not> py_in ''nan'' (''punishment: '' @ replicate k CHR ''9'' @ '' years'')"
    by (simp add: py_startswith_def py_in_replicate)
  have len: "\<not> length (''Punishment: '' @ replicate k CHR ''9'' @ '' years'') < 20"
    using assms by simp
  show ?thesis
    unfolding skipped_text_def lo using ni len by blast
qed

lemma structure_text_long_number:
  "structure_text (''Punishment: '' @ replicate 4301 CHR ''9'' @ '' years'') = Inl ValueError"
proof -
  have "parse_punishment_years (''Punishment: '' @ replicate 4301 CHR ''9'' @ '' years'')
      = Inl ValueError"
    using parse_number_of_years [OF _ replicate_digits, of 4301] by simp
  then have "isl (parse_punishment_years
      (''Punishment: '' @ replicate 4301 CHR ''9'' @ '' years''))"
    by (simp only: sum.disc)
  moreover have "\<not> skipped_text (''Punishment: '' @ replicate 4301 CHR ''9'' @ '' years'')"
    by (rule long_number_not_skipped) simp
  ultimately have "failing_text (''Punishment: '' @ replicate 4301 CHR ''9'' @ '' years'')"
    unfolding failing_text_def by blast
  then show ?thesis
    by (rule structure_text_failing)
qed

lemma load_one_failing_text:
  assumes "structure_text t = Inl ValueError"
  shows "load_data_structured
     (case_option (Inl JSONDecodeError) Inr \<circ> map_of [(l, JObject [(''text'', JString t)])])
     (case_option (Inl FileNotFoundError) Inr \<circ> map_of [(p, File [l] None)]) p
   = ([Warning_error_parsing ValueError, Info_loaded 0 0], Inr [])"
  using assms
  by (simp add: load_data_structured_def load_line_def structure_entry_def
        entry_get_text_def handler_def)

text \<open>
  Claim C8, as the code has it. \<open>load_data_structured\<close> raises exactly when \<open>open\<close>
  raises or the reading of the file raises, and it raises that very error. Only
  \<open>FileNotFoundError\<close> is logged before it goes on to the caller; \<open>PermissionError\<close>,
  \<open>IsADirectoryError\<close> and \<open>UnicodeDecodeError\<close> go on without a message. The lines read
  before such an error, and all the lines of a file read to its end, are taken one by
  one and none of them aborts the loading. A line on which \<open>json.loads\<close> raises is passed
  over with a warning, the one of invalid JSON for \<open>JSONDecodeError\<close>; so is a line that
  is JSON for something else than an object whose \<open>'text'\<close> is a string or is absent.
  An entry whose text is shorter than 20 characters or contains "nan" in any letter case
  is skipped and counted. An entry whose severity extraction raises is passed over with
  the warning of \<open>ValueError\<close>, and no text does so unless it holds a run of more than
  4300 digits. Every other entry gives exactly one record, the one \<open>structure_text\<close>
  makes of its text, and the records come in file order.
\<close>

theorem load_data_structured_outcome:
  "(\<forall>e. snd (load_data_structured json_loads files file_path) = Inl e
         \<longleftrightarrow> files file_path = Inl e \<or> (\<exists>lines. files file_path = Inr (File lines (Some e))))
   \<and> (\<forall>e. files file_path = Inl e \<longrightarrow>
        load_data_structured json_loads files file_path
          = (if e = FileNotFoundError then [Error_not_found file_path] else [], Inl e))
   \<and> (\<forall>lines e. files file_path = Inr (File lines (Some e)) \<longrightarrow>
        load_data_structured json_loads files file_path
          = (List.map_filter (line_warning json_loads) lines
               @ (if e = FileNotFoundError then [Error_not_found file_path] else []),
             Inl e))
   \<and> (\<forall>lines. files file_path = Inr (File lines None) \<longrightarrow>
        (\<exists>recs.
           load_data_structured json_loads files file_path
             = (List.map_filter (line_warning json_loads) lines
                  @ [Info_loaded (length recs)
                       (length (filter skipped_text (entry_texts json_loads lines)))],
                Inr recs)
           \<and> map (\<lambda>r. Inr (Some r)) recs
               = map structure_text (filter loaded_text (entry_texts json_loads lines))
           \<and> map original_text recs = filter loaded_text (entry_texts json_loads lines)))
   \<and> (\<forall>t. \<not> skipped_text t \<and> \<not> long_number t \<longrightarrow> loaded_text t)"
proof (intro conjI allI impI)
  fix e
  show "snd (load_data_structured json_loads files file_path) = Inl e
         \<longleftrightarrow> files file_path = Inl e \<or> (\<exists>lines. files file_path = Inr (File lines (Some e)))"
    by (auto simp: load_data_structured_def Let_def
          split: sum.splits corpus_file.splits option.splits)
next
  fix e
  assume "files file_path = Inl e"
  then show "load_data_structured json_loads files file_path
          = (if e = FileNotFoundError then [Error_not_found file_path] else [], Inl e)"
    by (simp add: load_data_structured_def)
next
  fix lines e
  assume f: "files file_path = Inr (File lines (Some e))"
  from load_lines_start [of json_loads lines]
  obtain recs where "foldl (load_line json_loads)
         \<lparr>structured_data = [], skipped_count = 0, logged = []\<rparr> lines =
       \<lparr>structured_data = recs,
        skipped_count = length (filter skipped_text (entry_texts json_loads lines)),
        logged = List.map_filter (line_warning json_loads) lines\<rparr>"
    by blast
  with f show "load_data_structured json_loads files file_path
          = (List.map_filter (line_warning json_loads) lines
               @ (if e = FileNotFoundError then [Error_not_found file_path] else []),
             Inl e)"
    by (simp add: load_data_structured_def Let_def)
next
  fix lines
  assume f: "files file_path = Inr (File lines None)"
  from load_lines_start [of json_loads lines]
  obtain recs where fold: "foldl (load_line json_loads)
         \<lparr>structured_data = [], skipped_count = 0, logged = []\<rparr> lines =
       \<lparr>structured_data = recs,
        skipped_count = length (filter skipped_text (entry_texts json_loads lines)),
        logged = List.map_filter (line_warning json_loads) lines\<rparr>"
    and recs: "map (\<lambda>r. Inr (Some r)) recs
         = map structure_text (filter loaded_text (entry_texts json_loads lines))"
      "map original_text recs = filter loaded_text (entry_texts json_loads lines)"
    by blast
  have "load_data_structured json_loads files file_path
             = (List.map_filter (line_warning json_loads) lines
                  @ [Info_loaded (length recs)
                       (length (filter skipped_text (entry_texts json_loads lines)))],
                Inr recs)"
    using f by (simp add: load_data_structured_def Let_def fold)
  with recs show "\<exists>recs.
           load_data_structured json_loads files file_path
             = (List.map_filter (line_warning json_loads) lines
                  @ [Info_loaded (length recs)
                       (length (filter skipped_text (entry_texts json_loads lines)))],
                Inr recs)
           \<and> map (\<lambda>r. Inr (Some r)) recs
               = map structure_text (filter loaded_text (entry_texts json_loads lines))
           \<and> map original_text recs = filter loaded_text (entry_texts json_loads lines)"
    by blast
next
  fix t
  assume a: "\<not> skipped_text t \<and> \<not> long_number t"
  show "loaded_text t"
  proof (rule ccontr)
    assume "\<not> loaded_text t"
    with a obtain e where "parse_punishment_years t = Inl e"
      by (auto simp: loaded_text_def isl_def)
    then have "long_number t"
      by (simp add: parse_punishment_years_raises)
    with a show False by simp
  qed
qed

theorem load_data_structured_outcome_witness:
  \<open>load_data_structured
     (case_option (Inl JSONDecodeError) Inr \<circ> map_of
        [(''{"text": "IPC 379: Theft. Punishment: 3 years"}'',
          JObject [(''text'', JString ''IPC 379: Theft. Punishment: 3 years'')]),
         (''{"text": "nan"}'', JObject [(''text'', JString ''nan'')])])
     (case_option (Inl FileNotFoundError) Inr \<circ> map_of
        [(''data/legal_data.jsonl'',
          File [''{"text": "nan"}'', '' {"text": '',
                ''{"text": "IPC 379: Theft. Punishment: 3 years"}''] None)])
     ''data/legal_data.jsonl''
   = ([Warning_invalid_json ''{"text":'', Info_loaded 1 1],
      Inr [\<lparr>ipc_section_id = ''IPC 379'', description_summary = ''Theft.'',
             punishment_years = Some 3,
             original_text = ''IPC 379: Theft. Punishment: 3 years''\<rparr>])
   \<and> load_data_structured
     (case_option (Inl JSONDecodeError) Inr \<circ> map_of
        [(''{"text": "IPC 379: Theft. Punishment: 3 years"}'',
          JObject [(''text'', JString ''IPC 379: Theft. Punishment: 3 years'')]),
         (''{"text": "nan"}'', JObject [(''text'', JString ''nan'')])])
     (case_option (Inl FileNotFoundError) Inr \<circ> map_of
        [(''data/legal_data.jsonl'',
          File [''{"text": "nan"}'', '' {"text": '',
                ''{"text": "IPC 379: Theft. Punishment: 3 years"}''] None)])
     ''data/missing.jsonl''
   = ([Error_not_found ''data/missing.jsonl''], Inl FileNotFoundError)\<close>
proof -
  let ?jl = \<open>case_option (Inl JSONDecodeError) Inr \<circ> map_of
        [(''{"text": "IPC 379: Theft. Punishment: 3 years"}'',
          JObject [(''text'', JString ''IPC 379: Theft. Punishment: 3 years'')]),
         (''{"text": "nan"}'', JObject [(''text'', JString ''nan'')])]\<close>
  let ?lines = \<open>[''{"text": "nan"}'', '' {"text": '',
         ''{"text": "IPC 379: Theft. Punishment: 3 years"}'']\<close>
  let ?files = "case_option (Inl FileNotFoundError) Inr \<circ> map_of
        [(''data/legal_data.jsonl'', File ?lines None)]"
  let ?r = "\<lparr>ipc_section_id = ''IPC 379'', description_summary = ''Theft.'',
             punishment_years = Some 3,
             original_text = ''IPC 379: Theft. Punishment: 3 years''\<rparr>"
  have f: "?files ''data/legal_data.jsonl'' = Inr (File ?lines None)"
    by simp
  have g: "?files ''data/missing.jsonl'' = Inl FileNotFoundError"
    by code_simp
  have t: "entry_texts ?jl ?lines = [''nan'', ''IPC 379: Theft. Punishment: 3 years'']"
    by code_simp
  have k: "filter loaded_text [''nan'', ''IPC 379: Theft. Punishment: 3 years'']
      = [''IPC 379: Theft. Punishment: 3 years'']"
    by code_simp
  have sk: "filter skipped_text [''nan'', ''IPC 379: Theft. Punishment: 3 years''] = [''nan'']"
    by code_simp
  have w: \<open>List.map_filter (line_warning ?jl) ?lines = [Warning_invalid_json ''{"text":'']\<close>
    by code_simp
  have s: "structure_text ''IPC 379: Theft. Punishment: 3 years'' = Inr (Some ?r)"
    by code_simp
  from load_data_structured_outcome [of ?jl ?files "''data/legal_data.jsonl''"] f
  obtain recs where l: "load_data_structured ?jl ?files ''data/legal_data.jsonl''
             = (List.map_filter (line_warning ?jl) ?lines
                  @ [Info_loaded (length recs)
                       (length (filter skipped_text (entry_texts ?jl ?lines)))],
                Inr recs)"
    and m: "map (\<lambda>r. Inr (Some r)) recs
               = map structure_text (filter loaded_text (entry_texts ?jl ?lines))"
    by blast
  from m have "map (\<lambda>r. Inr (Some r) :: py_error + ipc_record option) recs = [Inr (Some ?r)]"
    by (simp only: t k s list.map)
  then have "recs = [?r]"
    by (auto simp: map_eq_Cons_conv)
  with l have a: \<open>load_data_structured ?jl ?files ''data/legal_data.jsonl''
      = ([Warning_invalid_json ''{"text":'', Info_loaded 1 1], Inr [?r])\<close>
    by (simp only: t sk w) simp
  have b: "load_data_structured ?jl ?files ''data/missing.jsonl''
      = ([Error_not_found ''data/missing.jsonl''], Inl FileNotFoundError)"
    using load_data_structured_outcome [of ?jl ?files "''data/missing.jsonl''",
        THEN conjunct2, THEN conjunct1, rule_format, OF g]
    by simp
  from a b show ?thesis
    by (rule conjI)
qed

text \<open>
  The claim as stated has the loader raise for a missing file only, pass over with a
  warning only the lines that are malformed JSON, skip only the texts that contain "nan"
  as written, and has every other entry give a record. In the source a file that is
  there and is not UTF-8 raises \<open>UnicodeDecodeError\<close>; an entry whose text holds "NAN" in
  capitals is skipped and counted; a well-formed line whose \<open>'text'\<close> is \<open>null\<close> is passed
  over with a warning; and an entry of 4319 characters without "nan", whose punishment
  is a number of 4301 digits, gives a warning and no record.
\<close>

theorem load_outcomes_outside_the_claim:
  \<open>load_data_structured
     (case_option (Inl JSONDecodeError) Inr \<circ> map_of
        [(''{"text": "IPC 420: CHEATING AND FINANCE FRAUD"}'',
          JObject [(''text'', JString ''IPC 420: CHEATING AND FINANCE FRAUD'')])])
     (case_option (Inl FileNotFoundError) Inr \<circ> map_of
        [(''data/legal_data.jsonl'',
          File [''{"text": "IPC 420: CHEATING AND FINANCE FRAUD"}''] (Some UnicodeDecodeError))])
     ''data/legal_data.jsonl''
   = ([], Inl UnicodeDecodeError)
   \<and> load_data_structured
     (case_option (Inl JSONDecodeError) Inr \<circ> map_of
        [(''{"text": "IPC 420: CHEATING AND FINANCE FRAUD"}'',
          JObject [(''text'', JString ''IPC 420: CHEATING AND FINANCE FRAUD'')]),
         (''{"text": null}'', JObject [(''text'', JNull)])])
     (case_option (Inl FileNotFoundError) Inr \<circ> map_of
        [(''data/legal_data.jsonl'',
          File [''{"text": "IPC 420: CHEATING AND FINANCE FRAUD"}'', ''{"text": null}''] None)])
     ''data/legal_data.jsonl''
   = ([Warning_error_parsing AttributeError, Info_loaded 0 1], Inr [])
   \<and> \<not> py_in ''nan'' ''IPC 420: CHEATING AND FINANCE FRAUD''
   \<and> \<not> length ''IPC 420: CHEATING AND FINANCE FRAUD'' < 20
   \<and> load_data_structured
     (case_option (Inl JSONDecodeError) Inr \<circ> map_of
        [(''{"text": "Punishment: '' @ replicate 4301 CHR ''9'' @ '' years"}'',
          JObject [(''text'',
             JString (''Punishment: '' @ replicate 4301 CHR ''9'' @ '' years''))])])
     (case_option (Inl FileNotFoundError) Inr \<circ> map_of
        [(''data/legal_data.jsonl'',
          File [''{"text": "Punishment: '' @ replicate 4301 CHR ''9'' @ '' years"}''] None)])
     ''data/legal_data.jsonl''
   = ([Warning_error_parsing ValueError, Info_loaded 0 0], Inr [])
   \<and> \<not> skipped_text (''Punishment: '' @ replicate 4301 CHR ''9'' @ '' years'')\<close>
proof (intro conjI)
  show \<open>load_data_structured
     (case_option (Inl JSONDecodeError) Inr \<circ> map_of
        [(''{"text": "IPC 420: CHEATING AND FINANCE FRAUD"}'',
          JObject [(''text'', JString ''IPC 420: CHEATING AND FINANCE FRAUD'')])])
     (case_option (Inl FileNotFoundError) Inr \<circ> map_of
        [(''data/legal_data.jsonl'',
          File [''{"text": "IPC 420: CHEATING AND FINANCE FRAUD"}''] (Some UnicodeDecodeError))])
     ''data/legal_data.jsonl''
   = ([], Inl UnicodeDecodeError)\<close>
    by code_simp
  show \<open>load_data_structured
     (case_option (Inl JSONDecodeError) Inr \<circ> map_of
        [(''{"text": "IPC 420: CHEATING AND FINANCE FRAUD"}'',
          JObject [(''text'', JString ''IPC 420: CHEATING AND FINANCE FRAUD'')]),
         (''{"text": null}'', JObject [(''text'', JNull)])])
     (case_option (Inl FileNotFoundError) Inr \<circ> map_of
        [(''data/legal_data.jsonl'',
          File [''{"text": "IPC 420: CHEATING AND FINANCE FRAUD"}'', ''{"text": null}''] None)])
     ''data/legal_data.jsonl''
   = ([Warning_error_parsing AttributeError, Info_loaded 0 1], Inr [])\<close>
    by code_simp
  show "\<not> py_in ''nan'' ''IPC 420: CHEATING AND FINANCE FRAUD''"
    by code_simp
  show "\<not> length ''IPC 420: CHEATING AND FINANCE FRAUD'' < 20"
    by code_simp
  show \<open>load_data_structured
     (case_option (Inl JSONDecodeError) Inr \<circ> map_of
        [(''{"text": "Punishment: '' @ replicate 4301 CHR ''9'' @ '' years"}'',
          JObject [(''text'',
             JString (''Punishment: '' @ replicate 4301 CHR ''9'' @ '' years''))])])
     (case_option (Inl FileNotFoundError) Inr \<circ> map_of
        [(''data/legal_data.jsonl'',
          File [''{"text": "Punishment: '' @ replicate 4301 CHR ''9'' @ '' years"}''] None)])
     ''data/legal_data.jsonl''
   = ([Warning_error_parsing ValueError, Info_loaded 0 0], Inr [])\<close>
    by (rule load_one_failing_text [OF structure_text_long_number])
  show "\<not> skipped_text (''Punishment: '' @ replicate 4301 CHR ''9'' @ '' years'')"
    by (rule long_number_not_skipped) simp
qed

end
